theory Spec2Isabelle
  imports Main "HOL-Library.Word" "HOL-Library.AList"
begin

unbundle bit_operations_syntax

section \<open>The reader\<close>

text \<open>
  \<^verbatim>\<open>decodeWithRegions\<close> (src/utils/protoDecoder.ts) drives one
  \<^verbatim>\<open>protobuf.Reader\<close> over the whole buffer (line 15). The reader belongs to the
  protobufjs library, which the decoder imports and which is not part of the repository's
  sources; the spec describes it as the WireReader (section 4.1). Its methods are modelled
  after the library's reader: a cursor \<open>pos\<close> into an immutable byte array, every method a
  function from the buffer and the cursor to either an error (the exception thrown) or the
  value read and the new cursor. Reading \<^verbatim>\<open>buf[pos]\<close> beyond the array yields
  \<^verbatim>\<open>undefined\<close> in JavaScript, which \<^verbatim>\<open>& 127\<close> turns into 0 and for which
  \<^verbatim>\<open>< 128\<close> is false.
\<close>

type_synonym byte = "8 word"

type_synonym buffer = "byte list"

datatype error =
    RangeError nat nat
  | InvalidVarint
  | InvalidWireType nat nat
  | UndefinedWireType nat
  | TypeError
  | InvalidArrayLength

text \<open>
  \<^verbatim>\<open>Reader.uint32\<close>: a varint of up to five bytes, accumulated in 32 bits; the fifth
  byte contributes four bits. When all five bytes carry the continuation bit the reader
  steps over five more bytes without looking at them and raises a RangeError only if that
  passes the end of the buffer.
\<close>

definition low7 :: "buffer \<Rightarrow> nat \<Rightarrow> 32 word" where
  "low7 buf pos = (if pos < length buf then ucast ((buf ! pos) AND 127) else 0)"

definition low4 :: "buffer \<Rightarrow> nat \<Rightarrow> 32 word" where
  "low4 buf pos = (if pos < length buf then ucast ((buf ! pos) AND 15) else 0)"

definition lt128 :: "buffer \<Rightarrow> nat \<Rightarrow> bool" where
  "lt128 buf pos = (pos < length buf \<and> buf ! pos < 128)"

definition uint32 :: "buffer \<Rightarrow> nat \<Rightarrow> error + (32 word \<times> nat)" where
  "uint32 buf pos =
     (let v0 = low7 buf pos in
      if lt128 buf pos then Inr (v0, pos + 1) else
      let v1 = v0 OR push_bit 7 (low7 buf (pos + 1)) in
      if lt128 buf (pos + 1) then Inr (v1, pos + 2) else
      let v2 = v1 OR push_bit 14 (low7 buf (pos + 2)) in
      if lt128 buf (pos + 2) then Inr (v2, pos + 3) else
      let v3 = v2 OR push_bit 21 (low7 buf (pos + 3)) in
      if lt128 buf (pos + 3) then Inr (v3, pos + 4) else
      let v4 = v3 OR push_bit 28 (low4 buf (pos + 4)) in
      if lt128 buf (pos + 4) then Inr (v4, pos + 5) else
      if pos + 10 > length buf then Inl (RangeError (length buf) (length buf))
      else Inr (v4, pos + 10))"

text \<open>
  \<^verbatim>\<open>Reader.skip\<close>: without an argument it steps over one varint, checking the bound
  at every byte; with a length it steps over that many bytes.
\<close>

function skipVarint :: "buffer \<Rightarrow> nat \<Rightarrow> error + nat" where
  "skipVarint buf pos =
     (if pos \<ge> length buf then Inl (RangeError pos (length buf))
      else if (buf ! pos) AND 128 \<noteq> 0 then skipVarint buf (pos + 1)
      else Inr (pos + 1))"
  by pat_completeness auto

termination
  by (relation "measure (\<lambda>(buf, pos). length buf - pos)") auto

declare skipVarint.simps [simp del]

definition skip :: "buffer \<Rightarrow> nat \<Rightarrow> nat \<Rightarrow> error + nat" where
  "skip buf pos n =
     (if pos + n > length buf then Inl (RangeError pos (length buf)) else Inr (pos + n))"

text \<open>
  \<^verbatim>\<open>Reader.skipType\<close>: wire type 0 is a varint, 1 is eight bytes, 2 is a length and
  that many bytes, 5 is four bytes. Wire type 3 (start of a group) skips fields until a tag
  of wire type 4; the library's \<^verbatim>\<open>while\<close> loop is the recursive call with wire type 3
  at the cursor the skipped field left. Every other wire type raises an error.
\<close>

function skipType :: "buffer \<Rightarrow> nat \<Rightarrow> nat \<Rightarrow> error + nat" where
  "skipType buf pos w =
     (if w = 0 then skipVarint buf pos
      else if w = 1 then skip buf pos 8
      else if w = 2 then
        (case uint32 buf pos of
           Inl e \<Rightarrow> Inl e
         | Inr (n, p1) \<Rightarrow> skip buf p1 (unat n))
      else if w = 3 then
        (case uint32 buf pos of
           Inl e \<Rightarrow> Inl e
         | Inr (tag, p1) \<Rightarrow>
             if unat (tag AND 7) = 4 then Inr p1
             else (case skipType buf p1 (unat (tag AND 7)) of
                     Inl e \<Rightarrow> Inl e
                   | Inr p2 \<Rightarrow> skipType buf p2 3))
      else if w = 5 then skip buf pos 4
      else Inl (InvalidWireType w pos))"
  by pat_completeness auto

text \<open>
  Fixed-width reads (\<^verbatim>\<open>fixed32\<close>, \<^verbatim>\<open>readFixed64\<close>, little endian), the
  length-delimited \<^verbatim>\<open>bytes\<close>, and the 64-bit varint \<^verbatim>\<open>readLongVarint\<close>.
  The latter reads up to ten bytes; when fewer than five bytes remain it checks the bound
  for three bytes and reads the fourth without a check and without looking at its
  continuation bit, as the library does.
\<close>

definition fixed32 :: "buffer \<Rightarrow> nat \<Rightarrow> error + (32 word \<times> nat)" where
  "fixed32 buf pos =
     (if pos + 4 > length buf then Inl (RangeError pos (length buf))
      else Inr (ucast (buf ! pos)
                OR push_bit 8 (ucast (buf ! (pos + 1)))
                OR push_bit 16 (ucast (buf ! (pos + 2)))
                OR push_bit 24 (ucast (buf ! (pos + 3))), pos + 4))"

definition readFixed64 :: "buffer \<Rightarrow> nat \<Rightarrow> error + (64 word \<times> nat)" where
  "readFixed64 buf pos =
     (if pos + 8 > length buf then Inl (RangeError pos (length buf))
      else (case fixed32 buf pos of
              Inl e \<Rightarrow> Inl e
            | Inr (lo, p1) \<Rightarrow>
                (case fixed32 buf p1 of
                   Inl e \<Rightarrow> Inl e
                 | Inr (hi, p2) \<Rightarrow> Inr (ucast lo OR push_bit 32 (ucast hi), p2))))"

definition bytes :: "buffer \<Rightarrow> nat \<Rightarrow> error + (byte list \<times> nat)" where
  "bytes buf pos =
     (case uint32 buf pos of
        Inl e \<Rightarrow> Inl e
      | Inr (n, start) \<Rightarrow>
          (let endp = start + unat n in
           if endp > length buf then Inl (RangeError start (length buf))
           else Inr (take (unat n) (drop start buf), endp)))"

fun longBytes :: "buffer \<Rightarrow> nat \<Rightarrow> nat \<Rightarrow> nat \<Rightarrow> 64 word \<Rightarrow> error + (bool \<times> 64 word \<times> nat)" where
  "longBytes buf pos k 0 acc = Inr (False, acc, pos)"
| "longBytes buf pos k (Suc n) acc =
     (if pos \<ge> length buf then Inl (RangeError pos (length buf))
      else (let acc' = acc OR push_bit (7 * k) (ucast ((buf ! pos) AND 127)) in
            if buf ! pos < 128 then Inr (True, acc', pos + 1)
            else longBytes buf (pos + 1) (k + 1) n acc'))"

definition readLongVarint :: "buffer \<Rightarrow> nat \<Rightarrow> error + (64 word \<times> nat)" where
  "readLongVarint buf pos =
     (case (if length buf - pos > 4 then longBytes buf pos 0 5 0 else longBytes buf pos 0 3 0) of
        Inl e \<Rightarrow> Inl e
      | Inr (True, v, p) \<Rightarrow> Inr (v, p)
      | Inr (False, v, p) \<Rightarrow>
          if length buf - pos > 4 then
            (case longBytes buf p 5 5 v of
               Inl e \<Rightarrow> Inl e
             | Inr (True, v', p') \<Rightarrow> Inr (v', p')
             | Inr (False, v', p') \<Rightarrow> Inl InvalidVarint)
          else Inr (v OR push_bit 21 (if p < length buf then ucast ((buf ! p) AND 127) else 0), p + 1))"

section \<open>Decoded values\<close>

text \<open>
  The decoder builds plain JavaScript values (\<^verbatim>\<open>result: any\<close>, line 12). An object
  is the association list of its own properties, in insertion order. Floating-point values
  are kept as their bit patterns, 64-bit integers as exact integers, and a string as the
  bytes read (the library's UTF-8 decoding is the identity on ASCII). Besides the values
  the read methods return there are the reader object itself (which
  \<^verbatim>\<open>reader.skip()\<close> returns), the functions every object inherits from
  \<^verbatim>\<open>Object.prototype\<close>, and \<^verbatim>\<open>Object.prototype\<close> itself.
\<close>

datatype jsval =
    Undefined
  | Num int
  | Bool bool
  | Str string
  | Bytes "byte list"
  | Float32 "32 word"
  | Float64 "64 word"
  | Arr "jsval list"
  | Obj "(string \<times> jsval) list"
  | ReaderObject
  | Func string
  | ObjectPrototype

type_synonym jsobj = "(string \<times> jsval) list"

text \<open>
  \<^verbatim>\<open>targetObj[fieldName]\<close> (lines 44, 47, 63, 67, 97): a name that is no own
  property of the object is looked up in \<^verbatim>\<open>Object.prototype\<close>, whose members are
  eleven functions and the accessor \<^verbatim>\<open>__proto__\<close>, which yields the prototype of the
  object.
\<close>

definition objectPrototypeFunctions :: "string list" where
  "objectPrototypeFunctions =
     [''constructor'', ''__defineGetter__'', ''__defineSetter__'', ''hasOwnProperty'',
      ''__lookupGetter__'', ''__lookupSetter__'', ''isPrototypeOf'', ''propertyIsEnumerable'',
      ''toString'', ''valueOf'', ''toLocaleString'']"

definition inherited :: "string \<Rightarrow> jsval" where
  "inherited k =
     (if k \<in> set objectPrototypeFunctions then Func k
      else if k = ''__proto__'' then ObjectPrototype
      else Undefined)"

definition getProp :: "jsobj \<Rightarrow> string \<Rightarrow> jsval" where
  "getProp obj k = (case map_of obj k of None \<Rightarrow> inherited k | Some v \<Rightarrow> v)"

text \<open>
  \<^verbatim>\<open>targetObj[fieldName] = value\<close> (lines 45, 63, 99, 137) creates or replaces an own
  property, except for the name \<^verbatim>\<open>__proto__\<close>: that assignment calls the setter of
  \<^verbatim>\<open>Object.prototype\<close>, which ignores a value that is not an object and makes an
  object the prototype of the target. A prototype set in this way is kept as the entry
  \<^verbatim>\<open>__proto__\<close> of the association list, where \<open>getProp\<close> finds it; other names are
  not looked up through it.
\<close>

fun isObject :: "jsval \<Rightarrow> bool" where
  "isObject (Bytes bs) = True"
| "isObject (Arr xs) = True"
| "isObject (Obj kvs) = True"
| "isObject ReaderObject = True"
| "isObject (Func k) = True"
| "isObject ObjectPrototype = True"
| "isObject v = False"

definition setProp :: "jsobj \<Rightarrow> string \<Rightarrow> jsval \<Rightarrow> jsobj" where
  "setProp obj k v = (if k = ''__proto__'' \<and> \<not> isObject v then obj else AList.update k v obj)"

text \<open>
  \<^verbatim>\<open>push\<close> changes the array the property holds and assigns nothing: the object
  changes only where the array is the value of an own property.
\<close>

definition inPlace :: "jsobj \<Rightarrow> string \<Rightarrow> jsval \<Rightarrow> jsobj" where
  "inPlace obj k v = (case map_of obj k of None \<Rightarrow> obj | Some old \<Rightarrow> AList.update k v obj)"

text \<open>
  JavaScript's truthiness (used by \<^verbatim>\<open>!targetObj[fieldName]\<close>, lines 44 and 63),
  \<^verbatim>\<open>Array.isArray\<close>, \<^verbatim>\<open>push\<close> and \<^verbatim>\<open>length\<close>. Calling
  \<^verbatim>\<open>push\<close> on anything but an array raises a TypeError, since no other value of the
  model has a callable member of that name. An array holds at most \<open>2\<^sup>3\<^sup>2 - 1\<close> elements;
  \<^verbatim>\<open>push\<close> on a full array raises a RangeError when it sets the length.
\<close>

fun truthy :: "jsval \<Rightarrow> bool" where
  "truthy Undefined = False"
| "truthy (Num n) = (n \<noteq> 0)"
| "truthy (Bool b) = b"
| "truthy (Str s) = (s \<noteq> [])"
| "truthy (Float32 w) = (w AND 0x7FFFFFFF \<noteq> 0 \<and> w AND 0x7FFFFFFF \<le> 0x7F800000)"
| "truthy (Float64 w) = (w AND 0x7FFFFFFFFFFFFFFF \<noteq> 0 \<and> w AND 0x7FFFFFFFFFFFFFFF \<le> 0x7FF0000000000000)"
| "truthy (Bytes bs) = True"
| "truthy (Arr xs) = True"
| "truthy (Obj kvs) = True"
| "truthy ReaderObject = True"
| "truthy (Func k) = True"
| "truthy ObjectPrototype = True"

fun isArray :: "jsval \<Rightarrow> bool" where
  "isArray (Arr xs) = True"
| "isArray v = False"

fun push :: "jsval \<Rightarrow> jsval \<Rightarrow> error + jsval" where
  "push (Arr xs) v =
     (if int (length xs) < 4294967295 then Inr (Arr (xs @ [v])) else Inl InvalidArrayLength)"
| "push a v = Inl TypeError"

fun arrayLength :: "jsval \<Rightarrow> nat" where
  "arrayLength (Arr xs) = length xs"
| "arrayLength v = 0"

text \<open>
  Decimal rendering of a number inside a template string (lines 40 and 48).
\<close>

definition digit :: "nat \<Rightarrow> char" where
  "digit d = ''0123456789'' ! d"

function showNat :: "nat \<Rightarrow> string" where
  "showNat n = (if n < 10 then [digit n] else showNat (n div 10) @ [digit (n mod 10)])"
  by pat_completeness auto

termination
  by (relation "measure (\<lambda>n. n)") auto

declare showNat.simps [simp del]

section \<open>Functions of the reader by name\<close>

text \<open>
  The decoder calls \<^verbatim>\<open>reader[field.type]()\<close> (lines 69 and 122): the member is looked
  up by the field's type name and called without an argument. The primitive read methods
  are named by the scalar types of the wire format. The 64-bit reads return exact integers.
\<close>

definition zigzag32 :: "32 word \<Rightarrow> 32 word" where
  "zigzag32 v = drop_bit 1 v XOR (- (v AND 1))"

definition zigzag64 :: "64 word \<Rightarrow> 64 word" where
  "zigzag64 v = drop_bit 1 v XOR (- (v AND 1))"

definition mapRead :: "('a \<Rightarrow> jsval) \<Rightarrow> error + ('a \<times> nat) \<Rightarrow> error + (jsval \<times> nat)" where
  "mapRead f r = (case r of Inl e \<Rightarrow> Inl e | Inr (v, p) \<Rightarrow> Inr (f v, p))"

definition utf8_read :: "byte list \<Rightarrow> string" where
  "utf8_read bs = map (\<lambda>b. char_of (unat b)) bs"

definition primitiveRead :: "string \<Rightarrow> (buffer \<Rightarrow> nat \<Rightarrow> error + (jsval \<times> nat)) option" where
  "primitiveRead t =
     (if t = ''double'' then Some (\<lambda>buf pos. mapRead Float64 (readFixed64 buf pos))
      else if t = ''float'' then Some (\<lambda>buf pos. mapRead Float32 (fixed32 buf pos))
      else if t = ''int32'' then Some (\<lambda>buf pos. mapRead (\<lambda>v. Num (sint v)) (uint32 buf pos))
      else if t = ''uint32'' then Some (\<lambda>buf pos. mapRead (\<lambda>v. Num (uint v)) (uint32 buf pos))
      else if t = ''sint32'' then Some (\<lambda>buf pos. mapRead (\<lambda>v. Num (sint (zigzag32 v))) (uint32 buf pos))
      else if t = ''fixed32'' then Some (\<lambda>buf pos. mapRead (\<lambda>v. Num (uint v)) (fixed32 buf pos))
      else if t = ''sfixed32'' then Some (\<lambda>buf pos. mapRead (\<lambda>v. Num (sint v)) (fixed32 buf pos))
      else if t = ''int64'' then Some (\<lambda>buf pos. mapRead (\<lambda>v. Num (sint v)) (readLongVarint buf pos))
      else if t = ''uint64'' then Some (\<lambda>buf pos. mapRead (\<lambda>v. Num (uint v)) (readLongVarint buf pos))
      else if t = ''sint64'' then Some (\<lambda>buf pos. mapRead (\<lambda>v. Num (sint (zigzag64 v))) (readLongVarint buf pos))
      else if t = ''fixed64'' then Some (\<lambda>buf pos. mapRead (\<lambda>v. Num (uint v)) (readFixed64 buf pos))
      else if t = ''sfixed64'' then Some (\<lambda>buf pos. mapRead (\<lambda>v. Num (sint v)) (readFixed64 buf pos))
      else if t = ''bool'' then Some (\<lambda>buf pos. mapRead (\<lambda>v. Bool (v \<noteq> 0)) (uint32 buf pos))
      else if t = ''string'' then Some (\<lambda>buf pos. mapRead (\<lambda>bs. Str (utf8_read bs)) (bytes buf pos))
      else if t = ''bytes'' then Some (\<lambda>buf pos. mapRead Bytes (bytes buf pos))
      else None)"

text \<open>
  The other members of the reader that are functions: \<^verbatim>\<open>skip\<close>, which without a
  length steps over one varint and returns the reader; \<^verbatim>\<open>skipType\<close>, which
  without a wire type raises its error for an invalid wire type; the constructor and
  \<^verbatim>\<open>_slice\<close>, which raise a TypeError when called on the reader without an argument;
  and the functions of \<^verbatim>\<open>Object.prototype\<close>, of which two raise a TypeError and the
  others return a value and leave the cursor where it is. The properties
  \<^verbatim>\<open>buf\<close>, \<^verbatim>\<open>pos\<close>, \<^verbatim>\<open>len\<close> and \<^verbatim>\<open>__proto__\<close> are no functions,
  and the reader has no property of any other name.
\<close>

definition otherMember :: "string \<Rightarrow> (buffer \<Rightarrow> nat \<Rightarrow> error + (jsval \<times> nat)) option" where
  "otherMember t =
     (if t = ''skip'' then
        Some (\<lambda>buf pos. mapRead (\<lambda>p. ReaderObject)
                (case skipVarint buf pos of Inl e \<Rightarrow> Inl e | Inr p \<Rightarrow> Inr (p, p)))
      else if t = ''skipType'' then Some (\<lambda>buf pos. Inl (UndefinedWireType pos))
      else if t \<in> set [''constructor'', ''_slice'', ''__defineGetter__'', ''__defineSetter__'']
        then Some (\<lambda>buf pos. Inl TypeError)
      else if t \<in> set [''toString'', ''toLocaleString'']
        then Some (\<lambda>buf pos. Inr (Str ''[object Object]'', pos))
      else if t = ''valueOf'' then Some (\<lambda>buf pos. Inr (ReaderObject, pos))
      else if t \<in> set [''hasOwnProperty'', ''isPrototypeOf'', ''propertyIsEnumerable'']
        then Some (\<lambda>buf pos. Inr (Bool False, pos))
      else if t \<in> set [''__lookupGetter__'', ''__lookupSetter__'']
        then Some (\<lambda>buf pos. Inr (Undefined, pos))
      else None)"

definition readerMethod :: "string \<Rightarrow> (buffer \<Rightarrow> nat \<Rightarrow> error + (jsval \<times> nat)) option" where
  "readerMethod t = (case primitiveRead t of Some m \<Rightarrow> Some m | None \<Rightarrow> otherMember t)"

section \<open>Schema and byte regions\<close>

text \<open>
  A \<^verbatim>\<open>protobuf.Type\<close> is used through its \<^verbatim>\<open>fields\<close> only; a field through
  \<^verbatim>\<open>id\<close>, \<^verbatim>\<open>name\<close>, \<^verbatim>\<open>type\<close>, \<^verbatim>\<open>repeated\<close>, \<^verbatim>\<open>packed\<close>,
  \<^verbatim>\<open>map\<close> and \<^verbatim>\<open>resolvedType\<close>. Message types may refer to each other (and to
  themselves), so a schema maps the name of a message type to its fields, in the order
  \<^verbatim>\<open>for (const name in currentType.fields)\<close> visits them, and a resolved message type
  is referred to by its name. \<^verbatim>\<open>ByteRegion\<close> is the interface of src/types.ts without
  its \<^verbatim>\<open>value\<close> component, which is a reference into the value tree; \<open>end_off\<close> and
  \<open>rtype\<close> are its \<^verbatim>\<open>end\<close> and \<^verbatim>\<open>type\<close>.
\<close>

datatype resolved = Unresolved | ResolvedEnum | ResolvedType string

record Field =
  fid :: nat
  fname :: string
  ftype :: string
  repeated :: bool
  packed :: bool
  is_map :: bool
  resolvedType :: resolved

type_synonym schema = "string \<Rightarrow> Field list"

record ByteRegion =
  start :: nat
  end_off :: nat
  path :: string
  rtype :: string
  wireType :: nat
  fieldName :: string
  depth :: nat

fun isType :: "resolved \<Rightarrow> bool" where
  "isType (ResolvedType t) = True"
| "isType r = False"

fun typeName :: "resolved \<Rightarrow> string" where
  "typeName (ResolvedType t) = t"
| "typeName r = []"

text \<open>
  Lines 32 to 39: the first field whose id is the tag's field number.
\<close>

definition findField :: "Field list \<Rightarrow> nat \<Rightarrow> Field option" where
  "findField flds fieldId = find (\<lambda>field. fid field = fieldId) flds"

text \<open>
  Lines 40 to 49: the field's name (or \<^verbatim>\<open>unknown_<id>\<close>), the array created for a
  repeated field on its first occurrence, and the path with the index of the element about
  to be appended.
\<close>

definition joinPath :: "string \<Rightarrow> string \<Rightarrow> string" where
  "joinPath basePath name = (if basePath \<noteq> [] then basePath @ ''.'' @ name else name)"

definition fieldNameOf :: "Field option \<Rightarrow> nat \<Rightarrow> string" where
  "fieldNameOf field fieldId =
     (case field of Some f \<Rightarrow> fname f | None \<Rightarrow> ''unknown_'' @ showNat fieldId)"

definition isRepeated :: "Field option \<Rightarrow> bool" where
  "isRepeated field = (case field of Some f \<Rightarrow> repeated f | None \<Rightarrow> False)"

definition ensureArray :: "Field option \<Rightarrow> string \<Rightarrow> jsobj \<Rightarrow> jsobj" where
  "ensureArray field name obj =
     (if isRepeated field \<and> \<not> truthy (getProp obj name) then setProp obj name (Arr []) else obj)"

definition indexedPath :: "Field option \<Rightarrow> string \<Rightarrow> jsobj \<Rightarrow> string \<Rightarrow> string" where
  "indexedPath field name obj p =
     (if isRepeated field \<and> isArray (getProp obj name)
      then p @ ''['' @ showNat (arrayLength (getProp obj name)) @ '']''
      else p)"

section \<open>The decoder\<close>

text \<open>
  Lines 68 to 71: the loop over a packed block. A type name that is not the name of a
  function of the reader makes the call \<^verbatim>\<open>reader[field.type]()\<close> raise a TypeError.
\<close>

function readPacked :: "buffer \<Rightarrow> string \<Rightarrow> nat \<Rightarrow> jsval \<Rightarrow> nat \<Rightarrow> error + (jsval \<times> nat)" where
  "readPacked buf t packedEnd arr pos =
     (if pos < packedEnd then
        (case readerMethod t of
           None \<Rightarrow> Inl TypeError
         | Some m \<Rightarrow>
             (case m buf pos of
                Inl e \<Rightarrow> Inl e
              | Inr (val, p) \<Rightarrow>
                  (case push arr val of
                     Inl e \<Rightarrow> Inl e
                   | Inr arr' \<Rightarrow> readPacked buf t packedEnd arr' p)))
      else Inr (arr, pos))"
  by pat_completeness auto

text \<open>
  Lines 119 to 132: a scalar field is read by the function of the reader named by its type;
  when there is none an enum falls back to \<^verbatim>\<open>int32\<close>, and anything else is skipped
  and replaced by a placeholder.
\<close>

definition readScalar :: "buffer \<Rightarrow> Field \<Rightarrow> nat \<Rightarrow> nat \<Rightarrow> error + (jsval \<times> nat)" where
  "readScalar buf field wt pos =
     (case readerMethod (ftype field) of
        Some m \<Rightarrow> m buf pos
      | None \<Rightarrow>
          if resolvedType field = ResolvedEnum then mapRead (\<lambda>v. Num (sint v)) (uint32 buf pos)
          else mapRead (\<lambda>p. Str ''[Skipped]'') (case skipType buf pos wt of Inl e \<Rightarrow> Inl e | Inr p \<Rightarrow> Inr (p, p)))"

text \<open>
  Lines 96 to 100 and 134 to 138: the value is appended to the field's array or assigned
  to the property.
\<close>

definition store :: "jsobj \<Rightarrow> Field \<Rightarrow> jsval \<Rightarrow> error + jsobj" where
  "store obj field v =
     (if repeated field then
        (case push (getProp obj (fname field)) v of
           Inl e \<Rightarrow> Inl e
         | Inr arr \<Rightarrow> Inr (inPlace obj (fname field) arr))
      else Inr (setProp obj (fname field) v))"

text \<open>
  \<^verbatim>\<open>readMessage\<close> (lines 18 to 162). The reader's cursor and the region list are
  threaded through; the \<^verbatim>\<open>while\<close> loop is the recursive call on the same message,
  a nested message is the recursive call on a fresh object with the path of the field as
  base path, and an exception is the result \<open>Inl\<close>. In the nested branch the object is
  stored before the recursive call (so a TypeError of \<^verbatim>\<open>push\<close> comes first) and,
  since the stored object is the one the recursive call fills, stored again with its final
  content.
\<close>

function readMessage ::
  "schema \<Rightarrow> buffer \<Rightarrow> string \<Rightarrow> nat \<Rightarrow> jsobj \<Rightarrow> string \<Rightarrow> nat \<Rightarrow> nat \<Rightarrow> nat \<Rightarrow> ByteRegion list
     \<Rightarrow> error + (jsobj \<times> nat \<times> ByteRegion list)" where
  "readMessage env buf currentType endPos targetObj basePath dep globalOffset pos regions =
     (if pos < endPos then
        (case uint32 buf pos of
           Inl e \<Rightarrow> Inl e
         | Inr (tag, p1) \<Rightarrow>
             (let fieldId = unat (drop_bit 3 tag);
                  wt = unat (tag AND 7);
                  field = findField (env currentType) fieldId;
                  name = fieldNameOf field fieldId;
                  obj1 = ensureArray field name targetObj;
                  currentPath = indexedPath field name obj1 (joinPath basePath name);
                  regionStart = pos + globalOffset
              in case field of
                   Some f \<Rightarrow>
                     if is_map f then
                       (case skipType buf p1 wt of
                          Inl e \<Rightarrow> Inl e
                        | Inr p2 \<Rightarrow>
                            readMessage env buf currentType endPos obj1 basePath dep globalOffset p2
                              (regions @ [\<lparr>start = pos, end_off = p2, path = currentPath,
                                 rtype = ftype f, wireType = wt, fieldName = name, depth = dep\<rparr>]))
                     else if repeated f \<and> packed f \<and> wt = 2 then
                       (case uint32 buf p1 of
                          Inl e \<Rightarrow> Inl e
                        | Inr (packedLen, p2) \<Rightarrow>
                            (case readPacked buf (ftype f) (p2 + unat packedLen) (getProp obj1 name) p2 of
                               Inl e \<Rightarrow> Inl e
                             | Inr (arr, p3) \<Rightarrow>
                                 readMessage env buf currentType endPos (inPlace obj1 name arr) basePath dep
                                   globalOffset p3
                                   (regions @ [\<lparr>start = regionStart, end_off = p3 + globalOffset,
                                      path = joinPath basePath name, rtype = ''packed '' @ ftype f,
                                      wireType = wt, fieldName = name, depth = dep\<rparr>])))
                     else if wt = 2 \<and> isType (resolvedType f) then
                       (case uint32 buf p1 of
                          Inl e \<Rightarrow> Inl e
                        | Inr (len, p2) \<Rightarrow>
                            (case store obj1 f (Obj []) of
                               Inl e \<Rightarrow> Inl e
                             | Inr _ \<Rightarrow>
                                 (case readMessage env buf (typeName (resolvedType f))
                                         (p2 + unat len) [] currentPath (dep + 1) 0 p2 regions of
                                    Inl e \<Rightarrow> Inl e
                                  | Inr (nestedObj, p3, regions3) \<Rightarrow>
                                      (case store obj1 f (Obj nestedObj) of
                                         Inl e \<Rightarrow> Inl e
                                       | Inr obj2 \<Rightarrow>
                                           readMessage env buf currentType endPos obj2 basePath dep globalOffset p3
                                             (regions3 @ [\<lparr>start = pos, end_off = p3, path = currentPath,
                                                rtype = ftype f, wireType = wt, fieldName = name,
                                                depth = dep\<rparr>])))))
                     else
                       (case readScalar buf f wt p1 of
                          Inl e \<Rightarrow> Inl e
                        | Inr (v, p2) \<Rightarrow>
                            (case store obj1 f v of
                               Inl e \<Rightarrow> Inl e
                             | Inr obj2 \<Rightarrow>
                                 readMessage env buf currentType endPos obj2 basePath dep globalOffset p2
                                   (regions @ [\<lparr>start = pos, end_off = p2, path = currentPath,
                                      rtype = ftype f, wireType = wt, fieldName = name, depth = dep\<rparr>])))
                 | None \<Rightarrow>
                     (case skipType buf p1 wt of
                        Inl e \<Rightarrow> Inl e
                      | Inr p2 \<Rightarrow>
                          readMessage env buf currentType endPos obj1 basePath dep globalOffset p2
                            (regions @ [\<lparr>start = pos, end_off = p2, path = currentPath,
                               rtype = ''unknown'', wireType = wt, fieldName = name, depth = dep\<rparr>]))))
      else Inr (targetObj, pos, regions))"
  by pat_completeness auto

text \<open>
  \<^verbatim>\<open>decodeWithRegions\<close> (lines 7 to 172): any exception is caught, logged and
  replaced by one error with a fixed message (lines 166 to 169).
\<close>

definition decodeWithRegions :: "schema \<Rightarrow> string \<Rightarrow> buffer \<Rightarrow> string + (jsobj \<times> ByteRegion list)" where
  "decodeWithRegions env type buf =
     (case readMessage env buf type (length buf) [] [] 0 0 0 [] of
        Inl err \<Rightarrow> Inl ''Failed to decode binary with provided proto type.''
      | Inr (result, pos, regions) \<Rightarrow> Inr (result, regions))"

text \<open>
  The calls of \<^verbatim>\<open>readMessage\<close>. A call is given by the arguments of
  \<^verbatim>\<open>readMessage\<close> together with the cursor and the region list at its start.
\<close>

type_synonym call = "string \<times> nat \<times> jsobj \<times> string \<times> nat \<times> nat \<times> nat \<times> ByteRegion list"

fun run :: "schema \<Rightarrow> buffer \<Rightarrow> call \<Rightarrow> error + (jsobj \<times> nat \<times> ByteRegion list)" where
  "run env buf (currentType, endPos, targetObj, basePath, dep, globalOffset, pos, regions) =
     readMessage env buf currentType endPos targetObj basePath dep globalOffset pos regions"

text \<open>
  \<open>makesCall env buf c c'\<close>: the call \<open>c\<close> makes the call \<open>c'\<close> directly. There is one rule
  for each recursive call of \<^verbatim>\<open>readMessage\<close>: the next iteration of the loop after an
  unknown field, after a map field, after a packed block (line 82), after a nested message
  and after a scalar field, and the call of line 112 for a nested message.
\<close>

inductive makesCall :: "schema \<Rightarrow> buffer \<Rightarrow> call \<Rightarrow> call \<Rightarrow> bool" for env buf where
  after_unknown:
    "pos < endPos \<Longrightarrow> uint32 buf pos = Inr (tag, p1) \<Longrightarrow>
     findField (env ty) (unat (drop_bit 3 tag)) = None \<Longrightarrow>
     name = fieldNameOf None (unat (drop_bit 3 tag)) \<Longrightarrow>
     obj1 = ensureArray None name obj \<Longrightarrow>
     skipType buf p1 (unat (tag AND 7)) = Inr p2 \<Longrightarrow>
     makesCall env buf (ty, endPos, obj, bp, d, g, pos, regs)
       (ty, endPos, obj1, bp, d, g, p2,
        regs @ [\<lparr>start = pos, end_off = p2, path = indexedPath None name obj1 (joinPath bp name),
           rtype = ''unknown'', wireType = unat (tag AND 7), fieldName = name, depth = d\<rparr>])"
| after_map:
    "pos < endPos \<Longrightarrow> uint32 buf pos = Inr (tag, p1) \<Longrightarrow>
     findField (env ty) (unat (drop_bit 3 tag)) = Some f \<Longrightarrow>
     obj1 = ensureArray (Some f) (fname f) obj \<Longrightarrow>
     is_map f \<Longrightarrow>
     skipType buf p1 (unat (tag AND 7)) = Inr p2 \<Longrightarrow>
     makesCall env buf (ty, endPos, obj, bp, d, g, pos, regs)
       (ty, endPos, obj1, bp, d, g, p2,
        regs @ [\<lparr>start = pos, end_off = p2,
           path = indexedPath (Some f) (fname f) obj1 (joinPath bp (fname f)),
           rtype = ftype f, wireType = unat (tag AND 7), fieldName = fname f, depth = d\<rparr>])"
| after_packed:
    "pos < endPos \<Longrightarrow> uint32 buf pos = Inr (tag, p1) \<Longrightarrow>
     findField (env ty) (unat (drop_bit 3 tag)) = Some f \<Longrightarrow>
     obj1 = ensureArray (Some f) (fname f) obj \<Longrightarrow>
     \<not> is_map f \<Longrightarrow> repeated f \<and> packed f \<and> unat (tag AND 7) = 2 \<Longrightarrow>
     uint32 buf p1 = Inr (n, p2) \<Longrightarrow>
     readPacked buf (ftype f) (p2 + unat n) (getProp obj1 (fname f)) p2 = Inr (arr, p3) \<Longrightarrow>
     makesCall env buf (ty, endPos, obj, bp, d, g, pos, regs)
       (ty, endPos, inPlace obj1 (fname f) arr, bp, d, g, p3,
        regs @ [\<lparr>start = pos + g, end_off = p3 + g, path = joinPath bp (fname f),
           rtype = ''packed '' @ ftype f, wireType = unat (tag AND 7), fieldName = fname f,
           depth = d\<rparr>])"
| nested:
    "pos < endPos \<Longrightarrow> uint32 buf pos = Inr (tag, p1) \<Longrightarrow>
     findField (env ty) (unat (drop_bit 3 tag)) = Some f \<Longrightarrow>
     obj1 = ensureArray (Some f) (fname f) obj \<Longrightarrow>
     \<not> is_map f \<Longrightarrow> \<not> (repeated f \<and> packed f \<and> unat (tag AND 7) = 2) \<Longrightarrow>
     unat (tag AND 7) = 2 \<and> isType (resolvedType f) \<Longrightarrow>
     uint32 buf p1 = Inr (n, p2) \<Longrightarrow>
     store obj1 f (Obj []) = Inr o1 \<Longrightarrow>
     makesCall env buf (ty, endPos, obj, bp, d, g, pos, regs)
       (typeName (resolvedType f), p2 + unat n, [],
        indexedPath (Some f) (fname f) obj1 (joinPath bp (fname f)), d + 1, 0, p2, regs)"
| after_nested:
    "pos < endPos \<Longrightarrow> uint32 buf pos = Inr (tag, p1) \<Longrightarrow>
     findField (env ty) (unat (drop_bit 3 tag)) = Some f \<Longrightarrow>
     obj1 = ensureArray (Some f) (fname f) obj \<Longrightarrow>
     cp = indexedPath (Some f) (fname f) obj1 (joinPath bp (fname f)) \<Longrightarrow>
     \<not> is_map f \<Longrightarrow> \<not> (repeated f \<and> packed f \<and> unat (tag AND 7) = 2) \<Longrightarrow>
     unat (tag AND 7) = 2 \<and> isType (resolvedType f) \<Longrightarrow>
     uint32 buf p1 = Inr (n, p2) \<Longrightarrow>
     store obj1 f (Obj []) = Inr o1 \<Longrightarrow>
     readMessage env buf (typeName (resolvedType f)) (p2 + unat n) [] cp (d + 1) 0 p2 regs
       = Inr (nestedObj, p3, regs3) \<Longrightarrow>
     store obj1 f (Obj nestedObj) = Inr obj2 \<Longrightarrow>
     makesCall env buf (ty, endPos, obj, bp, d, g, pos, regs)
       (ty, endPos, obj2, bp, d, g, p3,
        regs3 @ [\<lparr>start = pos, end_off = p3, path = cp, rtype = ftype f,
           wireType = unat (tag AND 7), fieldName = fname f, depth = d\<rparr>])"
| after_scalar:
    "pos < endPos \<Longrightarrow> uint32 buf pos = Inr (tag, p1) \<Longrightarrow>
     findField (env ty) (unat (drop_bit 3 tag)) = Some f \<Longrightarrow>
     obj1 = ensureArray (Some f) (fname f) obj \<Longrightarrow>
     \<not> is_map f \<Longrightarrow> \<not> (repeated f \<and> packed f \<and> unat (tag AND 7) = 2) \<Longrightarrow>
     \<not> (unat (tag AND 7) = 2 \<and> isType (resolvedType f)) \<Longrightarrow>
     readScalar buf f (unat (tag AND 7)) p1 = Inr (v, p2) \<Longrightarrow>
     store obj1 f v = Inr obj2 \<Longrightarrow>
     makesCall env buf (ty, endPos, obj, bp, d, g, pos, regs)
       (ty, endPos, obj2, bp, d, g, p2,
        regs @ [\<lparr>start = pos, end_off = p2,
           path = indexedPath (Some f) (fname f) obj1 (joinPath bp (fname f)),
           rtype = ftype f, wireType = unat (tag AND 7), fieldName = fname f, depth = d\<rparr>])"

text \<open>
  \<^verbatim>\<open>findRegionByByte\<close> (lines 178 to 184) and \<^verbatim>\<open>findRegionsByPath\<close>
  (lines 186 to 188). \<^verbatim>\<open>Array.prototype.sort\<close> is stable, as is \<open>sort_key\<close>.
\<close>

definition span :: "ByteRegion \<Rightarrow> int" where
  "span r = int (end_off r) - int (start r)"

definition findRegionByByte :: "ByteRegion list \<Rightarrow> int \<Rightarrow> ByteRegion option" where
  "findRegionByByte regions byteIndex =
     (let candidates = filter (\<lambda>r. byteIndex \<ge> int (start r) \<and> byteIndex < int (end_off r)) regions;
          sorted = sort_key span candidates
      in case sorted of [] \<Rightarrow> None | c # cs \<Rightarrow> Some c)"


text \<open>
  A region covers a byte index when \<^verbatim>\<open>start <= byteIndex < end\<close> (the filter of line 180).
\<close>

definition covers :: "ByteRegion \<Rightarrow> int \<Rightarrow> bool" where
  "covers r byteIndex = (byteIndex \<ge> int (start r) \<and> byteIndex < int (end_off r))"

text \<open>
  Paths (lines 43 to 49) are built from field names with \<^verbatim>\<open>.\<close> between the path of a
  message and the name of a field decoded inside it, and with \<^verbatim>\<open>[index]\<close> behind the
  name of a repeated field. A path is a strict structural ancestor of another when the other
  is the path followed by one of these two steps and more; it is an ancestor by message
  traversal when the step is \<^verbatim>\<open>.\<close>. In this reading of a path string a \<^verbatim>\<open>.\<close>
  separates two names, which is so when no field name of the schema holds one.
\<close>

definition isAncestorPath :: "string \<Rightarrow> string \<Rightarrow> bool" where
  "isAncestorPath a b =
     (length a < length b \<and> take (length a) b = a
      \<and> (b ! length a = CHR ''.'' \<or> b ! length a = CHR ''[''))"

definition isMessageAncestorPath :: "string \<Rightarrow> string \<Rightarrow> bool" where
  "isMessageAncestorPath a b = (take (length a + 1) b = a @ ''.'')"

definition dotFreeNames :: "schema \<Rightarrow> bool" where
  "dotFreeNames env = (\<forall>t. \<forall>f\<in>set (env t). CHR ''.'' \<notin> set (fname f))"

text \<open>
  The regions a call of \<^verbatim>\<open>readMessage\<close> with base path \<open>bp\<close> appends while the cursor
  moves from \<open>lo\<close> to \<open>hi\<close>: they lie between \<open>lo\<close> and \<open>hi\<close>, their paths are below the
  base path, and every strict ancestor of the path of one of them that is itself below the
  base path is the path of a region among them that contains it.
\<close>

definition nestedIn :: "string \<Rightarrow> nat \<Rightarrow> nat \<Rightarrow> ByteRegion list \<Rightarrow> bool" where
  "nestedIn bp lo hi new =
     ((\<forall>r\<in>set new. lo \<le> start r \<and> end_off r \<le> hi)
      \<and> (bp \<noteq> [] \<longrightarrow> (\<forall>r\<in>set new. isMessageAncestorPath bp (path r)))
      \<and> (\<forall>b\<in>set new. \<forall>q. isMessageAncestorPath q (path b) \<and> (bp = [] \<or> isMessageAncestorPath bp q) \<longrightarrow>
            (\<exists>a\<in>set new. path a = q \<and> start a \<le> start b \<and> end_off b \<le> end_off a)))"

text \<open>
  The order of the region list. A region stands before another in the order of emission
  when it ends where the other starts or before, or when it lies within the other and is
  deeper: the fields of a message in the order of the buffer, and the fields decoded inside
  a nested message before the nested message itself.
\<close>

definition emittedBefore :: "ByteRegion \<Rightarrow> ByteRegion \<Rightarrow> bool" where
  "emittedBefore a b =
     (end_off a \<le> start b
      \<or> (start b \<le> start a \<and> end_off a \<le> end_off b \<and> depth b < depth a))"

section \<open>Example schemas\<close>

text \<open>
  The schema of the spec's concrete scenario: \<^verbatim>\<open>message Person { string name = 1;
  int32 id = 2; }\<close>.
\<close>

definition scalarField :: "nat \<Rightarrow> string \<Rightarrow> string \<Rightarrow> Field" where
  "scalarField i n t = \<lparr>fid = i, fname = n, ftype = t, repeated = False, packed = False,
     is_map = False, resolvedType = Unresolved\<rparr>"

definition personSchema :: schema where
  "personSchema t = (if t = ''Person'' then [scalarField 1 ''name'' ''string'', scalarField 2 ''id'' ''int32''] else [])"

text \<open>
  A message nested in a message: \<^verbatim>\<open>message Outer { Inner inner = 1; }\<close> and
  \<^verbatim>\<open>message Inner { int32 x = 1; }\<close>.
\<close>

definition messageField :: "nat \<Rightarrow> string \<Rightarrow> string \<Rightarrow> Field" where
  "messageField i n t = \<lparr>fid = i, fname = n, ftype = t, repeated = False, packed = False,
     is_map = False, resolvedType = ResolvedType t\<rparr>"

definition nestedSchema :: schema where
  "nestedSchema t =
     (if t = ''Outer'' then [messageField 1 ''inner'' ''Inner'']
      else if t = ''Inner'' then [scalarField 1 ''x'' ''int32'']
      else [])"

text \<open>
  Packed repeated fields: \<^verbatim>\<open>message Nums { repeated int32 nums = 1 [packed = true]; }\<close>
  and, with an enum \<^verbatim>\<open>Color\<close>,
  \<^verbatim>\<open>message Palette { repeated Color colors = 1 [packed = true]; }\<close>.
\<close>

definition packedField :: "nat \<Rightarrow> string \<Rightarrow> string \<Rightarrow> resolved \<Rightarrow> Field" where
  "packedField i n t r = \<lparr>fid = i, fname = n, ftype = t, repeated = True, packed = True,
     is_map = False, resolvedType = r\<rparr>"

definition packedSchema :: schema where
  "packedSchema t =
     (if t = ''Nums'' then [packedField 1 ''nums'' ''int32'' Unresolved]
      else if t = ''Palette'' then [packedField 1 ''colors'' ''Color'' ResolvedEnum]
      else [])"

text \<open>
  A packed enum field inside a nested message:
  \<^verbatim>\<open>message Box { Palette palette = 1; }\<close>.
\<close>

definition boxSchema :: schema where
  "boxSchema t =
     (if t = ''Box'' then [messageField 1 ''palette'' ''Palette'']
      else if t = ''Palette'' then [packedField 1 ''colors'' ''Color'' ResolvedEnum]
      else [])"

text \<open>
  A packed repeated field whose type is an enum named \<^verbatim>\<open>skip\<close>:
  \<^verbatim>\<open>message S { repeated skip xs = 1 [packed = true]; }\<close>.
\<close>

definition skipSchema :: schema where
  "skipSchema t = (if t = ''S'' then [packedField 1 ''xs'' ''skip'' ResolvedEnum] else [])"

text \<open>
  A message type with a field whose name holds a \<^verbatim>\<open>.\<close>, as a descriptor built by
  program may have it: the fields \<^verbatim>\<open>a\<close> and \<^verbatim>\<open>a.b\<close>, both \<^verbatim>\<open>int32\<close>.
\<close>

definition dottedSchema :: schema where
  "dottedSchema t =
     (if t = ''T'' then [scalarField 1 ''a'' ''int32'', scalarField 2 ''a.b'' ''int32''] else [])"

section \<open>Termination\<close>

text \<open>
  Every read of a tag moves the cursor forward, a tag can only be read in front of the end
  of the buffer, and no call of the reader that returns moves the cursor back; so the
  distance of the cursor to the end of the buffer decreases along every recursive call of
  \<^verbatim>\<open>readMessage\<close>.
\<close>

lemma uint32_progress:
  "uint32 buf pos = Inr (v, p) \<Longrightarrow> pos < p \<and> p \<le> length buf"
  unfolding uint32_def Let_def lt128_def
  by (simp split: if_splits)

lemma skipVarint_progress:
  "skipVarint buf pos = Inr p \<Longrightarrow> pos < p \<and> p \<le> length buf"
proof (induction buf pos rule: skipVarint.induct)
  case (1 buf pos)
  from 1(2) have "(if pos \<ge> length buf then Inl (RangeError pos (length buf))
      else if (buf ! pos) AND 128 \<noteq> 0 then skipVarint buf (pos + 1)
      else Inr (pos + 1)) = Inr p"
    by (subst (asm) skipVarint.simps) simp
  with 1(1) show ?case
    by (auto split: if_splits)
qed

lemma skip_mono: "skip buf pos n = Inr p \<Longrightarrow> pos \<le> p \<and> p \<le> length buf"
  by (auto simp: skip_def split: if_splits)

lemma skipType_dom_mono:
  "skipType_dom (buf, pos, w) \<Longrightarrow> skipType buf pos w = Inr p \<Longrightarrow> pos \<le> p \<and> p \<le> length buf"
proof (induction buf pos w arbitrary: p rule: skipType.pinduct)
  case (1 buf pos w)
  note eq = 1(4)[unfolded skipType.psimps[OF 1(1)]]
  show ?case
  proof (cases "w = 3")
    case False
    consider "w = 0" | "w = 1" | "w = 2" | "w = 5" | "w \<notin> {0,1,2,3,5}" using False by auto
    then show ?thesis
    proof cases
      case 1 with eq show ?thesis using skipVarint_progress[of buf pos p] by simp
    next
      case 2 with eq show ?thesis using skip_mono[of buf pos 8 p] by simp
    next
      case 3
      with eq obtain n p1 where u: "uint32 buf pos = Inr (n, p1)" and s: "skip buf p1 (unat n) = Inr p"
        by (auto split: sum.splits)
      show ?thesis using uint32_progress[OF u] skip_mono[OF s] by simp
    next
      case 4 with eq show ?thesis using skip_mono[of buf pos 4 p] by simp
    next
      case 5 with eq show ?thesis by simp
    qed
  next
    case True
    with eq obtain tag p1 where u: "uint32 buf pos = Inr (tag, p1)"
      by (auto split: sum.splits)
    note up = uint32_progress[OF u]
    show ?thesis
    proof (cases "unat (tag AND 7) = 4")
      case True
      with eq \<open>w = 3\<close> u up show ?thesis by auto
    next
      case False
      with eq \<open>w = 3\<close> u obtain p2 where
        s1: "skipType buf p1 (unat (tag AND 7)) = Inr p2" and s2: "skipType buf p2 3 = Inr p"
        by (auto split: sum.splits)
      have w3: "w \<noteq> 0" "w \<noteq> 1" "w \<noteq> 2" using \<open>w = 3\<close> by auto
      have a: "p1 \<le> p2 \<and> p2 \<le> length buf"
        using 1(2)[OF w3 \<open>w = 3\<close> u refl False s1] .
      have b: "p2 \<le> p \<and> p \<le> length buf"
        using 1(3)[OF w3 \<open>w = 3\<close> u refl False s1 s2] .
      from a b up show ?thesis by simp
    qed
  qed
qed

lemma skipType_total: "\<forall>x. skipType_dom x"
proof (rule "skipType.termination" [of "measure (\<lambda>(buf, pos, w). length buf - pos)"], goal_cases)
  case 1
  then show ?case by simp
next
  case (2 buf pos w x2 tag p1)
  then show ?case using uint32_progress[of buf pos tag p1] by auto
next
  case (3 buf pos w x2 tag p1 p2)
  then show ?case
    using uint32_progress[of buf pos tag p1] skipType_dom_mono[of buf p1 "unat (tag AND 7)" p2]
    by auto
qed

termination skipType
  by (rule skipType_total)

declare skipType.simps [simp del]

lemma skipType_mono: "skipType buf pos w = Inr p \<Longrightarrow> pos \<le> p \<and> p \<le> length buf"
  using skipType_dom_mono skipType_total by blast

lemma fixed32_progress:
  "fixed32 buf pos = Inr (v, p) \<Longrightarrow> pos < p \<and> pos < length buf"
  by (auto simp: fixed32_def split: if_splits)

lemma readFixed64_progress:
  "readFixed64 buf pos = Inr (v, p) \<Longrightarrow> pos < p \<and> pos < length buf"
  by (auto simp: readFixed64_def fixed32_def split: if_splits)

lemma bytes_progress:
  "bytes buf pos = Inr (v, p) \<Longrightarrow> pos < p \<and> pos < length buf"
  by (auto simp: bytes_def Let_def split: sum.splits if_splits dest!: uint32_progress)

lemma longBytes_progress:
  "longBytes buf pos k n acc = Inr (b, v, p) \<Longrightarrow> pos \<le> p \<and> (0 < n \<longrightarrow> pos < p \<and> pos < length buf)"
proof (induction n arbitrary: pos k acc)
  case 0
  then show ?case by simp
next
  case (Suc n)
  then show ?case
    by (fastforce simp: Let_def split: if_splits)
qed

lemma readLongVarint_progress:
  assumes "readLongVarint buf pos = Inr (v, p)"
  shows "pos < p \<and> pos < length buf"
proof (cases "length buf - pos > 4")
  case True
  with assms obtain b v1 p1 where l: "longBytes buf pos 0 5 0 = Inr (b, v1, p1)"
    by (auto simp: readLongVarint_def split: sum.splits)
  from longBytes_progress[OF l] have a: "pos < p1 \<and> pos < length buf" by simp
  show ?thesis
  proof (cases b)
    case True
    with assms l \<open>length buf - pos > 4\<close> a show ?thesis by (simp add: readLongVarint_def)
  next
    case False
    with assms l \<open>length buf - pos > 4\<close> obtain v2 where "longBytes buf p1 5 5 v1 = Inr (True, v2, p)"
      by (auto simp: readLongVarint_def split: sum.splits bool.splits if_splits)
    from longBytes_progress[OF this] a show ?thesis by simp
  qed
next
  case False
  with assms obtain b v1 p1 where l: "longBytes buf pos 0 3 0 = Inr (b, v1, p1)"
    by (auto simp: readLongVarint_def split: sum.splits)
  from longBytes_progress[OF l] have a: "pos < p1 \<and> pos < length buf" by simp
  from assms l False a show ?thesis
    by (cases b) (auto simp: readLongVarint_def)
qed

lemma mapRead_Inr: "mapRead f r = Inr (v, p) \<Longrightarrow> \<exists>u. r = Inr (u, p) \<and> v = f u"
  by (auto simp: mapRead_def split: sum.splits)

lemma primitiveRead_cases:
  assumes "primitiveRead t = Some m"
  shows "(\<exists>f. m = (\<lambda>buf pos. mapRead f (uint32 buf pos)))
       \<or> (\<exists>f. m = (\<lambda>buf pos. mapRead f (fixed32 buf pos)))
       \<or> (\<exists>f. m = (\<lambda>buf pos. mapRead f (readFixed64 buf pos)))
       \<or> (\<exists>f. m = (\<lambda>buf pos. mapRead f (readLongVarint buf pos)))
       \<or> (\<exists>f. m = (\<lambda>buf pos. mapRead f (bytes buf pos)))"
  using assms unfolding primitiveRead_def
  by (simp split: if_splits) blast+

lemma primitiveRead_progress:
  assumes "primitiveRead t = Some m" and "m buf pos = Inr (v, p)"
  shows "pos < p \<and> pos < length buf"
proof -
  consider f where "m = (\<lambda>buf pos. mapRead f (uint32 buf pos))"
    | f where "m = (\<lambda>buf pos. mapRead f (fixed32 buf pos))"
    | f where "m = (\<lambda>buf pos. mapRead f (readFixed64 buf pos))"
    | f where "m = (\<lambda>buf pos. mapRead f (readLongVarint buf pos))"
    | f where "m = (\<lambda>buf pos. mapRead f (bytes buf pos))"
    using primitiveRead_cases[OF assms(1)] by blast
  then show ?thesis
  proof cases
    case 1
    with assms(2) obtain u where "uint32 buf pos = Inr (u, p)" by (auto dest!: mapRead_Inr)
    from uint32_progress[OF this] show ?thesis by simp
  next
    case 2
    with assms(2) obtain u where "fixed32 buf pos = Inr (u, p)" by (auto dest!: mapRead_Inr)
    from fixed32_progress[OF this] show ?thesis by simp
  next
    case 3
    with assms(2) obtain u where "readFixed64 buf pos = Inr (u, p)" by (auto dest!: mapRead_Inr)
    from readFixed64_progress[OF this] show ?thesis by simp
  next
    case 4
    with assms(2) obtain u where "readLongVarint buf pos = Inr (u, p)" by (auto dest!: mapRead_Inr)
    from readLongVarint_progress[OF this] show ?thesis by simp
  next
    case 5
    with assms(2) obtain u where "bytes buf pos = Inr (u, p)" by (auto dest!: mapRead_Inr)
    from bytes_progress[OF this] show ?thesis by simp
  qed
qed

text \<open>
  The other members either move the cursor forward or leave it where it is.
\<close>

lemma skip_member_mono:
  assumes "mapRead (\<lambda>p. ReaderObject)
             (case skipVarint buf pos of Inl e \<Rightarrow> Inl e | Inr p \<Rightarrow> Inr (p, p)) = Inr (v, p)"
  shows "pos < p \<and> pos < length buf"
proof -
  from assms have "skipVarint buf pos = Inr p"
    by (auto dest!: mapRead_Inr split: sum.splits)
  from skipVarint_progress[OF this] show ?thesis by simp
qed

lemma otherMember_mono:
  assumes "otherMember t = Some m" and "m buf pos = Inr (v, p)"
  shows "p = pos \<or> (pos < p \<and> pos < length buf)"
proof (cases "t = ''skip''")
  case True
  with assms(1) have "m = (\<lambda>buf pos. mapRead (\<lambda>p. ReaderObject)
                (case skipVarint buf pos of Inl e \<Rightarrow> Inl e | Inr p \<Rightarrow> Inr (p, p)))"
    by (simp add: otherMember_def)
  with assms(2) skip_member_mono[of buf pos v p] show ?thesis by simp
next
  case False
  with assms have "p = pos"
    unfolding otherMember_def by (auto split: if_splits)
  then show ?thesis by simp
qed

lemma readerMethod_progress:
  assumes "readerMethod t = Some m" and "m buf pos = Inr (v, p)"
  shows "p = pos \<or> (pos < p \<and> pos < length buf)"
proof (cases "primitiveRead t")
  case None
  with assms(1) have "otherMember t = Some m" by (simp add: readerMethod_def)
  from otherMember_mono[OF this assms(2)] show ?thesis .
next
  case (Some m')
  with assms(1) have "primitiveRead t = Some m" by (simp add: readerMethod_def)
  from primitiveRead_progress[OF this assms(2)] show ?thesis by simp
qed

lemma push_Inr:
  "push arr v = Inr arr' \<Longrightarrow> \<exists>xs. arr = Arr xs \<and> length xs < 4294967295 \<and> arr' = Arr (xs @ [v])"
  by (cases arr) (auto split: if_splits)

text \<open>
  The loop over a packed block ends: every turn either moves the cursor towards the end of
  the buffer or leaves it and makes the array longer, which \<^verbatim>\<open>push\<close> does no more
  than \<open>2\<^sup>3\<^sup>2 - 1\<close> times.
\<close>

termination readPacked
proof (relation "(\<lambda>(buf, t, packedEnd, arr, pos). length buf - pos) <*mlex*>
                 measure (\<lambda>(buf, t, packedEnd, arr, pos). 4294967295 - arrayLength arr)", goal_cases)
  case 1
  then show ?case by (simp add: wf_mlex)
next
  case (2 buf t packedEnd arr pos m x v p arr')
  from push_Inr[of arr v arr'] 2 obtain xs where
    xs: "arr = Arr xs" "length xs < 4294967295" "arr' = Arr (xs @ [v])" by auto
  from readerMethod_progress[of t m buf pos v p] 2
  consider "p = pos" | "pos < p \<and> pos < length buf" by auto
  then show ?case
  proof cases
    case 1
    with xs show ?thesis by (auto intro!: mlex_leq)
  next
    case 2
    then show ?thesis by (auto intro!: mlex_less)
  qed
qed

declare readPacked.simps [simp del]

lemma readPacked_mono:
  "readPacked buf t packedEnd arr pos = Inr (arr', p) \<Longrightarrow> pos \<le> p"
proof (induction buf t packedEnd arr pos rule: readPacked.induct)
  case (1 buf t packedEnd arr pos)
  show ?case
  proof (cases "pos < packedEnd")
    case False
    with 1(2) show ?thesis by (subst (asm) readPacked.simps) simp
  next
    case True
    with 1(2) obtain m v p1 arr1 where
      m: "readerMethod t = Some m" and r: "m buf pos = Inr (v, p1)"
      and pu: "push arr v = Inr arr1" and rest: "readPacked buf t packedEnd arr1 p1 = Inr (arr', p)"
      by (subst (asm) readPacked.simps) (auto split: option.splits sum.splits)
    from 1(1)[OF True m r refl pu rest] readerMethod_progress[OF m r] show ?thesis by auto
  qed
qed

lemma readScalar_mono:
  assumes "readScalar buf f wt pos = Inr (v, p)"
  shows "pos \<le> p"
proof (cases "readerMethod (ftype f)")
  case (Some m)
  with assms have "m buf pos = Inr (v, p)" by (simp add: readScalar_def)
  from readerMethod_progress[OF Some this] show ?thesis by auto
next
  case None
  show ?thesis
  proof (cases "resolvedType f = ResolvedEnum")
    case True
    with assms None obtain u where "uint32 buf pos = Inr (u, p)"
      by (auto simp: readScalar_def dest!: mapRead_Inr)
    from uint32_progress[OF this] show ?thesis by simp
  next
    case False
    with assms None have "skipType buf pos wt = Inr p"
      by (auto simp: readScalar_def split: sum.splits dest!: mapRead_Inr)
    from skipType_mono[OF this] show ?thesis by simp
  qed
qed

lemma readMessage_dom_mono:
  "readMessage_dom (env, buf, ty, endPos, obj, bp, d, g, pos, regs) \<Longrightarrow>
   readMessage env buf ty endPos obj bp d g pos regs = Inr (obj', p', regs') \<Longrightarrow> pos \<le> p'"
proof (induction env buf ty endPos obj bp d g pos regs arbitrary: obj' p' regs' rule: readMessage.pinduct)
  case (1 env buf ty endPos obj bp d g pos regs)
  note eq = 1(8)[unfolded readMessage.psimps[OF 1(1)]]
  show ?case
  proof (cases "pos < endPos")
    case False
    with eq show ?thesis by simp
  next
    case True
    with eq obtain tag p1 where u: "uint32 buf pos = Inr (tag, p1)"
      by (auto split: sum.splits)
    note up = uint32_progress[OF u]
    note ih = "1"(2-7)[OF True u refl refl refl refl refl refl refl refl]
    note eq' = eq[unfolded u, simplified True Let_def if_True sum.case prod.case]
    let ?fld = "findField (env ty) (unat (drop_bit 3 tag))"
    let ?name = "fieldNameOf ?fld (unat (drop_bit 3 tag))"
    let ?obj1 = "ensureArray ?fld ?name obj"
    let ?cp = "indexedPath ?fld ?name ?obj1 (joinPath bp ?name)"
    show ?thesis
    proof (cases "findField (env ty) (unat (drop_bit 3 tag))")
      case None
      with eq' obtain p2 where s: "skipType buf p1 (unat (tag AND 7)) = Inr p2"
        by (auto split: sum.splits)
      from ih(1)[OF None s] eq' None s skipType_mono[OF s] up show ?thesis by auto
    next
      case (Some f)
      show ?thesis
      proof (cases "is_map f")
        case True
        with eq' Some obtain p2 where s: "skipType buf p1 (unat (tag AND 7)) = Inr p2"
          by (auto split: sum.splits)
        from ih(2)[OF Some True s] eq' Some True s skipType_mono[OF s] up show ?thesis by auto
      next
        case nm: False
        show ?thesis
        proof (cases "repeated f \<and> packed f \<and> unat (tag AND 7) = 2")
          case True
          with eq' Some nm obtain n p2 arr p3 where
            u2: "uint32 buf p1 = Inr (n, p2)" and
            rp: "readPacked buf (ftype f) (p2 + unat n)
                   (getProp ?obj1 ?name) p2 = Inr (arr, p3)"
            by (auto split: sum.splits)
          from ih(3)[OF Some nm True u2 refl rp refl] eq' Some nm True u2 rp
            uint32_progress[OF u2] readPacked_mono[OF rp] up
          show ?thesis by auto
        next
          case np: False
          show ?thesis
          proof (cases "unat (tag AND 7) = 2 \<and> isType (resolvedType f)")
            case True
            with eq' Some nm np obtain n p2 o1 nobj p3 regs3 obj2 where
              u2: "uint32 buf p1 = Inr (n, p2)" and
              st: "store ?obj1 f (Obj []) = Inr o1" and
              inner: "readMessage env buf (typeName (resolvedType f)) (p2 + unat n) []
                  ?cp
                  (d + 1) 0 p2 regs = Inr (nobj, p3, regs3)" and
              st2: "store ?obj1 f (Obj nobj) = Inr obj2"
              by (auto split: sum.splits)
            have a: "p2 \<le> p3" using ih(4)[OF Some nm np True u2 refl st inner] .
            from ih(5)[OF Some nm np True u2 refl st inner refl refl st2] eq' Some nm np True u2 st inner st2
              uint32_progress[OF u2] a up
            show ?thesis by auto
          next
            case nn: False
            with eq' Some nm np obtain v p2 obj2 where
              rs: "readScalar buf f (unat (tag AND 7)) p1 = Inr (v, p2)" and
              st: "store ?obj1 f v = Inr obj2"
              by (auto split: sum.splits)
            from ih(6)[OF Some nm np nn rs refl st] eq' Some nm np nn rs st readScalar_mono[OF rs] up
            show ?thesis by auto
          qed
        qed
      qed
    qed
  qed
qed

lemma readMessage_total: "\<forall>x. readMessage_dom x"
proof (rule "readMessage.termination"
    [of "measure (\<lambda>(env, buf, ty, endPos, obj, bp, d, g, pos, regs). length buf - pos)"], goal_cases)
  case 1
  show ?case by simp
next
  case (2 env buf ty endPos obj bp d g pos regs b tag p1 fid wt fld name obj1 cp rs p2)
  then show ?case
    using uint32_progress[of buf pos tag p1] skipType_mono[of buf p1 wt p2] by auto
next
  case (3 env buf ty endPos obj bp d g pos regs b tag p1 fid wt fld name obj1 cp rs f p2)
  then show ?case
    using uint32_progress[of buf pos tag p1] skipType_mono[of buf p1 wt p2] by auto
next
  case (4 env buf ty endPos obj bp d g pos regs b tag p1 fid wt fld name obj1 cp rs f b2 n p2 b3 arr p3)
  then show ?case
    using uint32_progress[of buf pos tag p1] uint32_progress[of buf p1 n p2]
      readPacked_mono[of buf "ftype f" "p2 + unat n" "getProp obj1 name" p2 arr p3] by auto
next
  case (5 env buf ty endPos obj bp d g pos regs b tag p1 fid wt fld name obj1 cp rs f b2 n p2 o1)
  then show ?case
    using uint32_progress[of buf pos tag p1] uint32_progress[of buf p1 n p2] by auto
next
  case (6 env buf ty endPos obj bp d g pos regs b tag p1 fid wt fld name obj1 cp rs f b2 n p2 o1 b3 nobj y p3
      regs3 obj2)
  then show ?case
    using uint32_progress[of buf pos tag p1] uint32_progress[of buf p1 n p2]
      readMessage_dom_mono[of env buf "typeName (resolvedType f)" "p2 + unat n" "[]" cp "d + 1" 0 p2 regs
        nobj p3 regs3]
    by auto
next
  case (7 env buf ty endPos obj bp d g pos regs b tag p1 fid wt fld name obj1 cp rs f b2 v p2 obj2)
  then show ?case
    using uint32_progress[of buf pos tag p1] readScalar_mono[of buf f wt p1 v p2] by auto
qed

termination readMessage
  by (rule readMessage_total)

declare readMessage.simps [simp del]

lemma readMessage_mono:
  "readMessage env buf ty endPos obj bp d g pos regs = Inr (obj', p', regs') \<Longrightarrow> pos \<le> p'"
  using readMessage_dom_mono readMessage_total by blast
section \<open>The scenario of the spec\<close>

text \<open>
  C1. Decoding the bytes 0A 02 41 6C 10 07 against the schema with the fields
  \<^verbatim>\<open>name: string = 1\<close> and \<^verbatim>\<open>id: int32 = 2\<close> succeeds; the value is
  \<^verbatim>\<open>{ name: "Al", id: 7 }\<close> and there are exactly two regions: \<^verbatim>\<open>name\<close> over
  bytes 0 to 4 (type string, wire type 2, depth 0) and \<^verbatim>\<open>id\<close> over bytes 4 to 6 (type
  int32, wire type 0, depth 0).
\<close>

theorem C1_person_scenario:
  "decodeWithRegions personSchema ''Person'' [0x0A, 0x02, 0x41, 0x6C, 0x10, 0x07] =
     Inr ([(''name'', Str ''Al''), (''id'', Num 7)],
          [\<lparr>start = 0, end_off = 4, path = ''name'', rtype = ''string'', wireType = 2,
              fieldName = ''name'', depth = 0\<rparr>,
           \<lparr>start = 4, end_off = 6, path = ''id'', rtype = ''int32'', wireType = 0,
              fieldName = ''id'', depth = 0\<rparr>])"
  by code_simp

section \<open>Point lookup\<close>

lemma filter_eq_split:
  "filter P xs = ys @ m # zs \<Longrightarrow>
   \<exists>before after. xs = before @ m # after \<and> filter P before = ys \<and> filter P after = zs \<and> P m"
proof (induction xs arbitrary: ys)
  case Nil
  then show ?case by simp
next
  case (Cons x xs)
  show ?case
  proof (cases "P x")
    case False
    with Cons.prems have "filter P xs = ys @ m # zs" by simp
    from Cons.IH[OF this] obtain before after where
      "xs = before @ m # after" "filter P before = ys" "filter P after = zs" "P m" by blast
    with False show ?thesis by (intro exI[of _ "x # before"] exI[of _ after]) simp
  next
    case True
    show ?thesis
    proof (cases ys)
      case Nil
      with Cons.prems True show ?thesis by (intro exI[of _ "[]"] exI[of _ xs]) simp
    next
      case (Cons y ys')
      with Cons.prems True have "filter P xs = ys' @ m # zs" "y = x" by simp_all
      from Cons.IH[OF this(1)] obtain before after where
        "xs = before @ m # after" "filter P before = ys'" "filter P after = zs" "P m" by blast
      with True Cons \<open>y = x\<close> show ?thesis by (intro exI[of _ "x # before"] exI[of _ after]) simp
    qed
  qed
qed

lemma sort_key_first_min:
  "xs \<noteq> [] \<Longrightarrow>
   \<exists>ys zs. xs = ys @ hd (sort_key f xs) # zs \<and>
     (\<forall>y\<in>set ys. f (hd (sort_key f xs)) < f y) \<and> (\<forall>z\<in>set zs. f (hd (sort_key f xs)) \<le> f z)"
proof (induction xs)
  case Nil
  then show ?case by simp
next
  case (Cons x xs)
  show ?case
  proof (cases "xs = []")
    case True
    then show ?thesis by (intro exI[of _ "[]"] exI[of _ "[]"]) simp
  next
    case False
    let ?m = "hd (sort_key f xs)"
    from Cons.IH[OF False] obtain ys zs where *: "xs = ys @ ?m # zs"
      "\<forall>y\<in>set ys. f ?m < f y" "\<forall>z\<in>set zs. f ?m \<le> f z" by blast
    have ne: "sort_key f xs \<noteq> []" using False by (metis length_sort list.size(3) length_0_conv)
    have hd: "hd (sort_key f (x # xs)) = (if f x \<le> f ?m then x else ?m)"
      using ne by (cases "sort_key f xs") auto
    show ?thesis
    proof (cases "f x \<le> f ?m")
      case True
      have "\<forall>z\<in>set xs. f x \<le> f z"
      proof
        fix z assume "z \<in> set xs"
        then have "z \<in> set ys \<or> z = ?m \<or> z \<in> set zs" using *(1) by (metis Un_iff set_ConsD set_append)
        with * True show "f x \<le> f z" by (metis order_trans order_less_imp_le order_refl)
      qed
      with hd True show ?thesis by (intro exI[of _ "[]"] exI[of _ xs]) simp
    next
      case False
      with hd have h: "hd (sort_key f (x # xs)) = ?m" by simp
      have "x # xs = (x # ys) @ ?m # zs" using *(1) by simp
      moreover have "\<forall>y\<in>set (x # ys). f ?m < f y" using *(2) False by auto
      ultimately show ?thesis unfolding h using *(3) by blast
    qed
  qed
qed

text \<open>
  C2. \<^verbatim>\<open>findRegionByByte\<close> returns nothing exactly when no region covers the index.
  Otherwise it returns a region of the list that covers the index, whose span
  \<^verbatim>\<open>end - start\<close> is minimal among the covering regions, and which is the first of the
  list among those of that span: every covering region before it in the list has a strictly
  larger span, every covering region after it a span at least as large.
\<close>

theorem C2_findRegionByByte:
  "(case findRegionByByte regions byteIndex of
      None \<Rightarrow> \<forall>r\<in>set regions. \<not> covers r byteIndex
    | Some r \<Rightarrow>
        covers r byteIndex \<and>
        (\<exists>before after. regions = before @ r # after \<and>
           (\<forall>b\<in>set before. covers b byteIndex \<longrightarrow> span r < span b) \<and>
           (\<forall>a\<in>set after. covers a byteIndex \<longrightarrow> span r \<le> span a)))"
proof -
  define c where "c = filter (\<lambda>r. covers r byteIndex) regions"
  have fr: "findRegionByByte regions byteIndex = (case sort_key span c of [] \<Rightarrow> None | x # xs \<Rightarrow> Some x)"
    by (simp add: findRegionByByte_def c_def covers_def)
  show ?thesis
  proof (cases "c = []")
    case True
    then have "findRegionByByte regions byteIndex = None"
      by (simp add: fr)
    moreover from True have "\<forall>r\<in>set regions. \<not> covers r byteIndex"
      by (simp add: c_def filter_empty_conv)
    ultimately show ?thesis by simp
  next
    case False
    define m where "m = hd (sort_key span c)"
    have ne: "sort_key span c \<noteq> []" using False by (metis length_sort length_0_conv)
    then have res: "findRegionByByte regions byteIndex = Some m"
      unfolding fr m_def by (cases "sort_key span c") simp_all
    from sort_key_first_min[OF False, of span] obtain ys zs where
      *: "c = ys @ m # zs" "\<forall>y\<in>set ys. span m < span y" "\<forall>z\<in>set zs. span m \<le> span z"
      unfolding m_def by blast
    from filter_eq_split[OF *(1)[unfolded c_def]] obtain before after where
      **: "regions = before @ m # after" "filter (\<lambda>r. covers r byteIndex) before = ys"
        "filter (\<lambda>r. covers r byteIndex) after = zs" "covers m byteIndex"
      by blast
    have "\<forall>b\<in>set before. covers b byteIndex \<longrightarrow> span m < span b"
      using *(2) **(2) by auto
    moreover have "\<forall>a\<in>set after. covers a byteIndex \<longrightarrow> span m \<le> span a"
      using *(3) **(3) by auto
    ultimately have "covers m byteIndex \<and>
        (\<exists>before after. regions = before @ m # after \<and>
           (\<forall>b\<in>set before. covers b byteIndex \<longrightarrow> span m < span b) \<and>
           (\<forall>a\<in>set after. covers a byteIndex \<longrightarrow> span m \<le> span a))"
      using **(1,4) by blast
    then show ?thesis unfolding res by simp
  qed
qed

theorem C2_findRegionByByte_witness:
  "findRegionByByte
     [\<lparr>start = 0, end_off = 4, path = ''inner'', rtype = ''Inner'', wireType = 2,
         fieldName = ''inner'', depth = 0\<rparr>,
      \<lparr>start = 2, end_off = 4, path = ''inner.x'', rtype = ''int32'', wireType = 0,
         fieldName = ''x'', depth = 1\<rparr>,
      \<lparr>start = 2, end_off = 4, path = ''y'', rtype = ''int32'', wireType = 0,
         fieldName = ''y'', depth = 0\<rparr>] 3
   = Some \<lparr>start = 2, end_off = 4, path = ''inner.x'', rtype = ''int32'', wireType = 0,
         fieldName = ''x'', depth = 1\<rparr>
   \<and> covers \<lparr>start = 2, end_off = 4, path = ''inner.x'', rtype = ''int32'', wireType = 0,
         fieldName = ''x'', depth = 1\<rparr> 3
   \<and> findRegionByByte
     [\<lparr>start = 0, end_off = 4, path = ''inner'', rtype = ''Inner'', wireType = 2,
         fieldName = ''inner'', depth = 0\<rparr>] 4 = None"
  using C2_findRegionByByte
    [of "[\<lparr>start = 0, end_off = 4, path = ''inner'', rtype = ''Inner'', wireType = 2,
            fieldName = ''inner'', depth = 0\<rparr>,
          \<lparr>start = 2, end_off = 4, path = ''inner.x'', rtype = ''int32'', wireType = 0,
            fieldName = ''x'', depth = 1\<rparr>,
          \<lparr>start = 2, end_off = 4, path = ''y'', rtype = ''int32'', wireType = 0,
            fieldName = ''y'', depth = 0\<rparr>]" 3]
  by (simp add: findRegionByByte_def covers_def span_def)

section \<open>Successful runs of the decoder\<close>

text \<open>
  A successful call of \<^verbatim>\<open>readMessage\<close> either leaves the loop at once, or reads one
  field and continues: an unknown, map or scalar field (one region from the tag to the
  cursor), a packed block (one region), or a nested message (the regions of the nested
  call, then the region of the field itself). Properties of successful runs are proved by
  induction along this structure.
\<close>

lemma readMessage_Inr_cases [consumes 1, case_names stop leaf packed nested]:
  assumes "readMessage env buf ty endPos obj bp d g pos regs = Inr res"
  obtains
    "\<not> pos < endPos" "res = (obj, pos, regs)"
  | tag p1 fld name p2 obj2 lbl where
      "pos < endPos" "uint32 buf pos = Inr (tag, p1)"
      "fld = findField (env ty) (unat (drop_bit 3 tag))"
      "name = fieldNameOf fld (unat (drop_bit 3 tag))"
      "p1 \<le> p2"
      "readMessage env buf ty endPos obj2 bp d g p2
         (regs @ [\<lparr>start = pos, end_off = p2,
            path = indexedPath fld name (ensureArray fld name obj) (joinPath bp name),
            rtype = lbl, wireType = unat (tag AND 7), fieldName = name, depth = d\<rparr>]) = Inr res"
  | tag p1 f name p3 obj2 where
      "pos < endPos" "uint32 buf pos = Inr (tag, p1)"
      "findField (env ty) (unat (drop_bit 3 tag)) = Some f" "name = fname f"
      "p1 < p3"
      "readMessage env buf ty endPos obj2 bp d g p3
         (regs @ [\<lparr>start = pos + g, end_off = p3 + g, path = joinPath bp name,
            rtype = ''packed '' @ ftype f, wireType = 2, fieldName = name, depth = d\<rparr>]) = Inr res"
  | tag p1 f name n p2 nobj p3 regs3 obj2 cp where
      "pos < endPos" "uint32 buf pos = Inr (tag, p1)"
      "findField (env ty) (unat (drop_bit 3 tag)) = Some f" "name = fname f"
      "uint32 buf p1 = Inr (n, p2)"
      "cp = indexedPath (Some f) name (ensureArray (Some f) name obj) (joinPath bp name)"
      "readMessage env buf (typeName (resolvedType f)) (p2 + unat n) [] cp (d + 1) 0 p2 regs
         = Inr (nobj, p3, regs3)"
      "readMessage env buf ty endPos obj2 bp d g p3
         (regs3 @ [\<lparr>start = pos, end_off = p3, path = cp, rtype = ftype f, wireType = 2,
            fieldName = name, depth = d\<rparr>]) = Inr res"
proof (cases "pos < endPos")
  case False
  with assms have "res = (obj, pos, regs)" by (subst (asm) readMessage.simps) simp
  with False that(1) show ?thesis by blast
next
  case True
  note eq = assms[unfolded readMessage.simps[of env buf ty endPos obj bp d g pos regs]]
  from True eq obtain tag p1 where u: "uint32 buf pos = Inr (tag, p1)"
    by (auto split: sum.splits)
  note eq' = eq[unfolded u, simplified True Let_def if_True sum.case prod.case]
  let ?fid = "unat (drop_bit 3 tag)"
  let ?wt = "unat (tag AND 7)"
  let ?fld = "findField (env ty) ?fid"
  let ?name = "fieldNameOf ?fld ?fid"
  let ?obj1 = "ensureArray ?fld ?name obj"
  let ?cp = "indexedPath ?fld ?name ?obj1 (joinPath bp ?name)"
  show ?thesis
  proof (cases ?fld)
    case None
    with eq' obtain p2 where s: "skipType buf p1 ?wt = Inr p2"
      by (auto split: sum.splits)
    show ?thesis
      by (rule that(2)[OF True u refl refl _ eq'[unfolded None option.case s sum.case, folded None]])
         (use skipType_mono[OF s] in simp)
  next
    case (Some f)
    have nm: "?name = fname f" by (simp add: Some fieldNameOf_def)
    show ?thesis
    proof (cases "is_map f")
      case True
      with eq' Some obtain p2 where s: "skipType buf p1 ?wt = Inr p2"
        by (auto split: sum.splits)
      show ?thesis
        by (rule that(2)[OF \<open>pos < endPos\<close> u refl refl _
              eq'[unfolded Some option.case s sum.case, simplified True if_True, folded Some]])
           (use skipType_mono[OF s] in simp)
    next
      case nmap: False
      show ?thesis
      proof (cases "repeated f \<and> packed f \<and> ?wt = 2")
        case True
        with eq' Some nmap obtain n p2 arr p3 where
          u2: "uint32 buf p1 = Inr (n, p2)" and
          rp: "readPacked buf (ftype f) (p2 + unat n) (getProp ?obj1 ?name) p2 = Inr (arr, p3)"
          by (auto split: sum.splits)
        have w2: "?wt = 2" using True by simp
        have lt: "p1 < p3" using uint32_progress[OF u2] readPacked_mono[OF rp] by simp
        have "readMessage env buf ty endPos (inPlace ?obj1 ?name arr) bp d g p3
           (regs @ [\<lparr>start = pos + g, end_off = p3 + g, path = joinPath bp (fname f),
              rtype = ''packed '' @ ftype f, wireType = 2, fieldName = fname f, depth = d\<rparr>]) = Inr res"
          using eq' Some nmap True u2 rp nm by simp
        from that(3)[OF \<open>pos < endPos\<close> u Some refl lt this] show ?thesis .
      next
        case npk: False
        show ?thesis
        proof (cases "?wt = 2 \<and> isType (resolvedType f)")
          case True
          with eq' Some nmap npk obtain n p2 o1 nobj p3 regs3 obj2 where
            u2: "uint32 buf p1 = Inr (n, p2)" and
            inner: "readMessage env buf (typeName (resolvedType f)) (p2 + unat n) [] ?cp (d + 1) 0 p2 regs
                = Inr (nobj, p3, regs3)" and
            st2: "store ?obj1 f (Obj nobj) = Inr obj2"
            by (auto split: sum.splits)
          have w2: "?wt = 2" using True by simp
          have cont: "readMessage env buf ty endPos obj2 bp d g p3
             (regs3 @ [\<lparr>start = pos, end_off = p3, path = ?cp, rtype = ftype f, wireType = 2,
                fieldName = fname f, depth = d\<rparr>]) = Inr res"
            using eq' Some nmap npk True u2 inner st2 nm by (auto split: sum.splits)
          have cp: "?cp = indexedPath (Some f) (fname f) (ensureArray (Some f) (fname f) obj) (joinPath bp (fname f))"
            using Some nm by simp
          from that(4)[OF \<open>pos < endPos\<close> u Some refl u2 refl inner[unfolded cp] cont[unfolded cp]]
          show ?thesis .
        next
          case nnest: False
          with eq' Some nmap npk obtain v p2 obj2 where
            rs: "readScalar buf f ?wt p1 = Inr (v, p2)" and
            st: "store ?obj1 f v = Inr obj2"
            by (auto split: sum.splits)
          have cont: "readMessage env buf ty endPos obj2 bp d g p2
             (regs @ [\<lparr>start = pos, end_off = p2, path = ?cp, rtype = ftype f, wireType = ?wt,
                fieldName = ?name, depth = d\<rparr>]) = Inr res"
            using eq' Some nmap npk nnest rs st by simp
          show ?thesis
            by (rule that(2)[OF \<open>pos < endPos\<close> u refl refl _ cont])
               (use readScalar_mono[OF rs] in simp)
        qed
      qed
    qed
  qed
qed


lemma readMessage_success_induct [consumes 1, case_names stop leaf packed nested]:
  assumes run: "readMessage env buf ty endPos obj bp d g pos regs = Inr res"
  assumes st: "\<And>ty endPos obj bp d g pos regs.
      \<not> pos < endPos \<Longrightarrow> P ty endPos obj bp d g pos regs (obj, pos, regs)"
  assumes lf: "\<And>ty endPos obj bp d g pos regs res tag p1 fld name p2 obj2 lbl.
      pos < endPos \<Longrightarrow> uint32 buf pos = Inr (tag, p1) \<Longrightarrow>
      fld = findField (env ty) (unat (drop_bit 3 tag)) \<Longrightarrow>
      name = fieldNameOf fld (unat (drop_bit 3 tag)) \<Longrightarrow>
      p1 \<le> p2 \<Longrightarrow>
      readMessage env buf ty endPos obj2 bp d g p2
         (regs @ [\<lparr>start = pos, end_off = p2,
            path = indexedPath fld name (ensureArray fld name obj) (joinPath bp name),
            rtype = lbl, wireType = unat (tag AND 7), fieldName = name, depth = d\<rparr>]) = Inr res \<Longrightarrow>
      P ty endPos obj2 bp d g p2
         (regs @ [\<lparr>start = pos, end_off = p2,
            path = indexedPath fld name (ensureArray fld name obj) (joinPath bp name),
            rtype = lbl, wireType = unat (tag AND 7), fieldName = name, depth = d\<rparr>]) res \<Longrightarrow>
      P ty endPos obj bp d g pos regs res"
  assumes pk: "\<And>ty endPos obj bp d g pos regs res tag p1 f name p3 obj2.
      pos < endPos \<Longrightarrow> uint32 buf pos = Inr (tag, p1) \<Longrightarrow>
      findField (env ty) (unat (drop_bit 3 tag)) = Some f \<Longrightarrow> name = fname f \<Longrightarrow>
      p1 < p3 \<Longrightarrow>
      readMessage env buf ty endPos obj2 bp d g p3
         (regs @ [\<lparr>start = pos + g, end_off = p3 + g, path = joinPath bp name,
            rtype = ''packed '' @ ftype f, wireType = 2, fieldName = name, depth = d\<rparr>]) = Inr res \<Longrightarrow>
      P ty endPos obj2 bp d g p3
         (regs @ [\<lparr>start = pos + g, end_off = p3 + g, path = joinPath bp name,
            rtype = ''packed '' @ ftype f, wireType = 2, fieldName = name, depth = d\<rparr>]) res \<Longrightarrow>
      P ty endPos obj bp d g pos regs res"
  assumes ns: "\<And>ty endPos obj bp d g pos regs res tag p1 f name n p2 nobj p3 regs3 obj2 cp.
      pos < endPos \<Longrightarrow> uint32 buf pos = Inr (tag, p1) \<Longrightarrow>
      findField (env ty) (unat (drop_bit 3 tag)) = Some f \<Longrightarrow> name = fname f \<Longrightarrow>
      uint32 buf p1 = Inr (n, p2) \<Longrightarrow>
      cp = indexedPath (Some f) name (ensureArray (Some f) name obj) (joinPath bp name) \<Longrightarrow>
      readMessage env buf (typeName (resolvedType f)) (p2 + unat n) [] cp (d + 1) 0 p2 regs
         = Inr (nobj, p3, regs3) \<Longrightarrow>
      P (typeName (resolvedType f)) (p2 + unat n) [] cp (d + 1) 0 p2 regs (nobj, p3, regs3) \<Longrightarrow>
      readMessage env buf ty endPos obj2 bp d g p3
         (regs3 @ [\<lparr>start = pos, end_off = p3, path = cp, rtype = ftype f, wireType = 2,
            fieldName = name, depth = d\<rparr>]) = Inr res \<Longrightarrow>
      P ty endPos obj2 bp d g p3
         (regs3 @ [\<lparr>start = pos, end_off = p3, path = cp, rtype = ftype f, wireType = 2,
            fieldName = name, depth = d\<rparr>]) res \<Longrightarrow>
      P ty endPos obj bp d g pos regs res"
  shows "P ty endPos obj bp d g pos regs res"
  using run
proof (induction "length buf - pos" arbitrary: ty endPos obj bp d g pos regs res rule: less_induct)
  case less
  from less.prems show ?case
  proof (cases rule: readMessage_Inr_cases)
    case stop
    then show ?thesis using st by simp
  next
    case (leaf tag p1 fld name p2 obj2 lbl)
    from uint32_progress[OF leaf(2)] leaf(5) have "length buf - p2 < length buf - pos" by arith
    from less.hyps[OF this leaf(6)] show ?thesis
      by (rule lf[OF leaf(1-6)])
  next
    case (packed tag p1 f name p3 obj2)
    from uint32_progress[OF packed(2)] packed(5) have "length buf - p3 < length buf - pos" by arith
    from less.hyps[OF this packed(6)] show ?thesis
      by (rule pk[OF packed(1-6)])
  next
    case (nested tag p1 f name n p2 nobj p3 regs3 obj2 cp)
    from uint32_progress[OF nested(2)] uint32_progress[OF nested(5)]
    have a: "length buf - p2 < length buf - pos" by arith
    from uint32_progress[OF nested(2)] uint32_progress[OF nested(5)] readMessage_mono[OF nested(7)]
    have b: "length buf - p3 < length buf - pos" by arith
    show ?thesis
      by (rule ns[OF nested(1-7) less.hyps[OF a nested(7)] nested(8) less.hyps[OF b nested(8)]])
  qed
qed

section \<open>Regions are never empty\<close>

lemma readMessage_regions_nonempty:
  assumes "readMessage env buf ty endPos obj bp d g pos regs = Inr res"
  shows "\<exists>new. snd (snd res) = regs @ new \<and> (\<forall>r\<in>set new. start r < end_off r)"
  using assms
proof (induction rule: readMessage_success_induct)
  case (stop ty endPos obj bp d g pos regs)
  then show ?case by simp
next
  case (leaf ty endPos obj bp d g pos regs res tag p1 fld name p2 obj2 lbl)
  from leaf.IH obtain new where "snd (snd res) = (regs @ [\<lparr>start = pos, end_off = p2,
            path = indexedPath fld name (ensureArray fld name obj) (joinPath bp name),
            rtype = lbl, wireType = unat (tag AND 7), fieldName = name, depth = d\<rparr>]) @ new"
    "\<forall>r\<in>set new. start r < end_off r" by blast
  moreover have "pos < p2" using uint32_progress[OF leaf.hyps(2)] leaf.hyps(5) by simp
  ultimately show ?case by auto
next
  case (packed ty endPos obj bp d g pos regs res tag p1 f name p3 obj2)
  from packed.IH obtain new where "snd (snd res) = (regs @ [\<lparr>start = pos + g, end_off = p3 + g, path = joinPath bp name,
            rtype = ''packed '' @ ftype f, wireType = 2, fieldName = name, depth = d\<rparr>]) @ new"
    "\<forall>r\<in>set new. start r < end_off r" by blast
  moreover have "pos < p3" using uint32_progress[OF packed.hyps(2)] packed.hyps(5) by simp
  ultimately show ?case by auto
next
  case (nested ty endPos obj bp d g pos regs res tag p1 f name n p2 nobj p3 regs3 obj2 cp)
  from nested.IH(1) obtain new1 where n1: "regs3 = regs @ new1" "\<forall>r\<in>set new1. start r < end_off r"
    by auto
  from nested.IH(2) obtain new2 where n2: "snd (snd res) = (regs3 @ [\<lparr>start = pos, end_off = p3, path = cp, rtype = ftype f, wireType = 2,
            fieldName = name, depth = d\<rparr>]) @ new2" "\<forall>r\<in>set new2. start r < end_off r"
    by blast
  have "pos < p3"
    using uint32_progress[OF nested.hyps(2)] uint32_progress[OF nested.hyps(5)] readMessage_mono[OF nested.hyps(7)] by simp
  with n1 n2 show ?case by auto
qed

text \<open>
  C3. Whenever decoding succeeds, every region of the returned list has
  \<^verbatim>\<open>start < end\<close>.
\<close>

theorem C3_regions_nonempty:
  assumes "decodeWithRegions env type buf = Inr (result, regions)"
  shows "\<forall>r\<in>set regions. start r < end_off r"
proof -
  from assms obtain pos where
    "readMessage env buf type (length buf) [] [] 0 0 0 [] = Inr (result, pos, regions)"
    by (auto simp: decodeWithRegions_def split: sum.splits)
  from readMessage_regions_nonempty[OF this] show ?thesis by simp
qed

theorem C3_regions_nonempty_witness:
  "decodeWithRegions nestedSchema ''Outer'' [0x0A, 0x02, 0x08, 0x07] =
     Inr ([(''inner'', Obj [(''x'', Num 7)])],
          [\<lparr>start = 2, end_off = 4, path = ''inner.x'', rtype = ''int32'', wireType = 0,
              fieldName = ''x'', depth = 1\<rparr>,
           \<lparr>start = 0, end_off = 4, path = ''inner'', rtype = ''Inner'', wireType = 2,
              fieldName = ''inner'', depth = 0\<rparr>])
   \<and> list_all (\<lambda>r. start r < end_off r)
         [\<lparr>start = 2, end_off = 4, path = ''inner.x'', rtype = ''int32'', wireType = 0,
              fieldName = ''x'', depth = 1\<rparr>,
           \<lparr>start = 0, end_off = 4, path = ''inner'', rtype = ''Inner'', wireType = 2,
              fieldName = ''inner'', depth = 0\<rparr>]"
proof -
  have run: "decodeWithRegions nestedSchema ''Outer'' [0x0A, 0x02, 0x08, 0x07] =
     Inr ([(''inner'', Obj [(''x'', Num 7)])],
          [\<lparr>start = 2, end_off = 4, path = ''inner.x'', rtype = ''int32'', wireType = 0,
              fieldName = ''x'', depth = 1\<rparr>,
           \<lparr>start = 0, end_off = 4, path = ''inner'', rtype = ''Inner'', wireType = 2,
              fieldName = ''inner'', depth = 0\<rparr>])"
    by code_simp
  from C3_regions_nonempty[OF run] run show ?thesis by (simp add: list_all_iff)
qed


section \<open>One field at a time\<close>

text \<open>
  What one iteration of the loop does for an unknown field, for a known scalar field that
  is neither repeated nor a map, for a packed block, and for a nested message that is
  neither repeated nor a map.
\<close>

lemma readMessage_step_unknown:
  assumes "pos < endPos" and "uint32 buf pos = Inr (tag, p1)"
    and "findField (env ty) (unat (drop_bit 3 tag)) = None"
  shows "readMessage env buf ty endPos obj bp d g pos regs =
    (case skipType buf p1 (unat (tag AND 7)) of
       Inl e \<Rightarrow> Inl e
     | Inr p2 \<Rightarrow>
         readMessage env buf ty endPos obj bp d g p2
           (regs @ [\<lparr>start = pos, end_off = p2,
              path = joinPath bp (''unknown_'' @ showNat (unat (drop_bit 3 tag))),
              rtype = ''unknown'', wireType = unat (tag AND 7),
              fieldName = ''unknown_'' @ showNat (unat (drop_bit 3 tag)), depth = d\<rparr>]))"
  by (subst readMessage.simps)
     (simp add: assms Let_def fieldNameOf_def ensureArray_def isRepeated_def indexedPath_def
        split: sum.splits)


lemma readMessage_step_packed:
  assumes "pos < endPos" and "uint32 buf pos = Inr (tag, p1)"
    and "findField (env ty) (unat (drop_bit 3 tag)) = Some f"
    and "\<not> is_map f" and "repeated f" and "packed f" and "unat (tag AND 7) = 2"
    and "uint32 buf p1 = Inr (n, p2)"
  shows "readMessage env buf ty endPos obj bp d g pos regs =
    (case readPacked buf (ftype f) (p2 + unat n)
            (getProp (ensureArray (Some f) (fname f) obj) (fname f)) p2 of
       Inl e \<Rightarrow> Inl e
     | Inr (arr, p3) \<Rightarrow>
         readMessage env buf ty endPos (inPlace (ensureArray (Some f) (fname f) obj) (fname f) arr)
           bp d g p3
           (regs @ [\<lparr>start = pos + g, end_off = p3 + g, path = joinPath bp (fname f),
              rtype = ''packed '' @ ftype f, wireType = 2, fieldName = fname f, depth = d\<rparr>]))"
  by (subst readMessage.simps)
     (simp add: assms Let_def fieldNameOf_def split: sum.splits)


section \<open>Unknown fields\<close>

lemma unknown_99_runs:
  assumes "findField (env type) 99 = None"
  shows "readMessage env [0x98, 0x06, 0x05] type 3 [] [] 0 0 0 [] =
           Inr ([], 3, [\<lparr>start = 0, end_off = 3, path = ''unknown_99'', rtype = ''unknown'',
                          wireType = 0, fieldName = ''unknown_99'', depth = 0\<rparr>])
       \<and> decodeWithRegions env type [0x98, 0x06, 0x05] =
           Inr ([], [\<lparr>start = 0, end_off = 3, path = ''unknown_99'', rtype = ''unknown'',
                        wireType = 0, fieldName = ''unknown_99'', depth = 0\<rparr>])
       \<and> decodeWithRegions env type [0x98, 0x06, 0x05, 0x98, 0x06, 0x07] =
           Inr ([], [\<lparr>start = 0, end_off = 3, path = ''unknown_99'', rtype = ''unknown'',
                        wireType = 0, fieldName = ''unknown_99'', depth = 0\<rparr>,
                     \<lparr>start = 3, end_off = 6, path = ''unknown_99'', rtype = ''unknown'',
                        wireType = 0, fieldName = ''unknown_99'', depth = 0\<rparr>])"
proof -
  have tag: "unat (drop_bit 3 (792 :: 32 word)) = 99" "unat ((792 :: 32 word) AND 7) = 0"
    by simp_all
  have name: "fieldNameOf None 99 = ''unknown_99''"
    by (simp add: fieldNameOf_def showNat.simps digit_def)
  have u0: "\<And>rest. uint32 (0x98 # 0x06 # rest) 0 = Inr (792, 2)"
    by (simp add: uint32_def low7_def lt128_def)
  have u3: "\<And>a b c rest. uint32 (a # b # c # 0x98 # 0x06 # rest) 3 = Inr (792, 5)"
    by (simp add: uint32_def low7_def lt128_def)
  have s2: "\<And>a b rest. skipType (a # b # 0x05 # rest) 2 0 = Inr 3"
    by (simp add: skipType.simps skipVarint.simps)
  have s5: "\<And>a b c d e rest. skipType (a # b # c # d # e # 0x07 # rest) 5 0 = Inr 6"
    by (simp add: skipType.simps skipVarint.simps)
  have pth: "indexedPath None ''unknown_99'' [] (joinPath [] ''unknown_99'') = ''unknown_99''"
    "ensureArray None ''unknown_99'' [] = []"
    by (simp_all add: indexedPath_def ensureArray_def isRepeated_def joinPath_def)
  have one: "readMessage env [0x98, 0x06, 0x05] type 3 [] [] 0 0 0 [] =
           Inr ([], 3, [\<lparr>start = 0, end_off = 3, path = ''unknown_99'', rtype = ''unknown'',
                          wireType = 0, fieldName = ''unknown_99'', depth = 0\<rparr>])"
    apply (subst readMessage.simps)
    apply (simp add: u0 tag assms name s2 pth)
    apply (subst readMessage.simps)
    apply (simp add: Let_def)
    done
  have two: "readMessage env [0x98, 0x06, 0x05, 0x98, 0x06, 0x07] type 6 [] [] 0 0 0 [] =
           Inr ([], 6, [\<lparr>start = 0, end_off = 3, path = ''unknown_99'', rtype = ''unknown'',
                        wireType = 0, fieldName = ''unknown_99'', depth = 0\<rparr>,
                     \<lparr>start = 3, end_off = 6, path = ''unknown_99'', rtype = ''unknown'',
                        wireType = 0, fieldName = ''unknown_99'', depth = 0\<rparr>])"
    apply (subst readMessage.simps)
    apply (simp add: u0 tag assms name s2 pth)
    apply (subst readMessage.simps)
    apply (simp add: u3 tag assms name s5 pth)
    apply (subst readMessage.simps)
    apply (simp add: Let_def)
    done
  have l3: "length [0x98, 0x06, 0x05 :: byte] = 3" and l6: "length [0x98, 0x06, 0x05, 0x98, 0x06, 0x07 :: byte] = 6"
    by simp_all
  show ?thesis unfolding decodeWithRegions_def l3 l6 one two by simp
qed

text \<open>
  C6. A buffer that holds only the varint field number 99 with value 5 (bytes 98 06 05),
  decoded against any schema whose message type has no field 99, is decoded without a
  failure; the cursor ends at 3, behind the tag and the varint, and the one region has the
  path \<^verbatim>\<open>unknown_99\<close>. When the field occurs twice there are two regions with that same
  path and no array in the value. In general an unknown field leaves the value object as it
  is and adds a region whose path is the base path joined with \<^verbatim>\<open>unknown_<number>\<close>,
  without an index, whatever was decoded before.
\<close>

theorem C6_unknown_field:
  "(findField (env type) 99 = None \<longrightarrow>
      readMessage env [0x98, 0x06, 0x05] type 3 [] [] 0 0 0 [] =
           Inr ([], 3, [\<lparr>start = 0, end_off = 3, path = ''unknown_99'', rtype = ''unknown'',
                          wireType = 0, fieldName = ''unknown_99'', depth = 0\<rparr>])
       \<and> decodeWithRegions env type [0x98, 0x06, 0x05] =
           Inr ([], [\<lparr>start = 0, end_off = 3, path = ''unknown_99'', rtype = ''unknown'',
                        wireType = 0, fieldName = ''unknown_99'', depth = 0\<rparr>])
       \<and> decodeWithRegions env type [0x98, 0x06, 0x05, 0x98, 0x06, 0x07] =
           Inr ([], [\<lparr>start = 0, end_off = 3, path = ''unknown_99'', rtype = ''unknown'',
                        wireType = 0, fieldName = ''unknown_99'', depth = 0\<rparr>,
                     \<lparr>start = 3, end_off = 6, path = ''unknown_99'', rtype = ''unknown'',
                        wireType = 0, fieldName = ''unknown_99'', depth = 0\<rparr>]))
   \<and> (pos < endPos \<and> uint32 buf pos = Inr (tag, p1)
        \<and> findField (env type) (unat (drop_bit 3 tag)) = None
        \<and> skipType buf p1 (unat (tag AND 7)) = Inr p2 \<longrightarrow>
      readMessage env buf type endPos obj bp d g pos regs =
        readMessage env buf type endPos obj bp d g p2
          (regs @ [\<lparr>start = pos, end_off = p2,
             path = joinPath bp (''unknown_'' @ showNat (unat (drop_bit 3 tag))),
             rtype = ''unknown'', wireType = unat (tag AND 7),
             fieldName = ''unknown_'' @ showNat (unat (drop_bit 3 tag)), depth = d\<rparr>]))"
proof -
  have "pos < endPos \<and> uint32 buf pos = Inr (tag, p1)
        \<and> findField (env type) (unat (drop_bit 3 tag)) = None
        \<and> skipType buf p1 (unat (tag AND 7)) = Inr p2 \<Longrightarrow>
      readMessage env buf type endPos obj bp d g pos regs =
        readMessage env buf type endPos obj bp d g p2
          (regs @ [\<lparr>start = pos, end_off = p2,
             path = joinPath bp (''unknown_'' @ showNat (unat (drop_bit 3 tag))),
             rtype = ''unknown'', wireType = unat (tag AND 7),
             fieldName = ''unknown_'' @ showNat (unat (drop_bit 3 tag)), depth = d\<rparr>])"
    using readMessage_step_unknown[where env=env and ty=type and pos=pos and endPos=endPos and buf=buf
        and tag=tag and ?p1.0=p1 and obj=obj and bp=bp and d=d and g=g and regs=regs]
    by simp
  with unknown_99_runs[of env type] show ?thesis by blast
qed

theorem C6_unknown_field_witness:
  "findField (personSchema ''Person'') 99 = None
   \<and> decodeWithRegions personSchema ''Person'' [0x98, 0x06, 0x05] =
           Inr ([], [\<lparr>start = 0, end_off = 3, path = ''unknown_99'', rtype = ''unknown'',
                        wireType = 0, fieldName = ''unknown_99'', depth = 0\<rparr>])"
proof -
  have h: "findField (personSchema ''Person'') 99 = None"
    by (simp add: findField_def personSchema_def scalarField_def)
  from C6_unknown_field[of personSchema "''Person''"] h show ?thesis by simp
qed

section \<open>Order of the region list\<close>

lemma readMessage_emission_order:
  assumes "readMessage env buf ty endPos obj bp d g pos regs = Inr res"
  shows "g = 0 \<longrightarrow>
           (\<exists>new. snd (snd res) = regs @ new
              \<and> (\<forall>r\<in>set new. pos \<le> start r \<and> end_off r \<le> fst (snd res) \<and> d \<le> depth r)
              \<and> sorted_wrt emittedBefore new)"
  using assms
proof (induction rule: readMessage_success_induct)
  case (stop ty endPos obj bp d g pos regs)
  then show ?case by simp
next
  case (leaf ty endPos obj bp d g pos regs res tag p1 fld name p2 obj2 lbl)
  let ?r = "\<lparr>start = pos, end_off = p2,
            path = indexedPath fld name (ensureArray fld name obj) (joinPath bp name),
            rtype = lbl, wireType = unat (tag AND 7), fieldName = name, depth = d\<rparr>"
  show ?case
  proof
    assume g: "g = 0"
    with leaf.IH obtain new where new: "snd (snd res) = (regs @ [?r]) @ new"
      "\<forall>r\<in>set new. p2 \<le> start r \<and> end_off r \<le> fst (snd res) \<and> d \<le> depth r"
      "sorted_wrt emittedBefore new" by blast
    have le: "pos \<le> p2" using uint32_progress[OF leaf.hyps(2)] leaf.hyps(5) by simp
    have le2: "p2 \<le> fst (snd res)"
      using readMessage_mono[of env buf ty endPos obj2 bp d g p2 _ "fst res" "fst (snd res)" "snd (snd res)"]
        leaf.hyps(6) by simp
    have "\<forall>r\<in>set (?r # new). pos \<le> start r \<and> end_off r \<le> fst (snd res) \<and> d \<le> depth r"
      using new(2) le le2 by auto
    moreover have "sorted_wrt emittedBefore (?r # new)"
      using new(2,3) by (auto simp: emittedBefore_def)
    ultimately show "\<exists>new. snd (snd res) = regs @ new
              \<and> (\<forall>r\<in>set new. pos \<le> start r \<and> end_off r \<le> fst (snd res) \<and> d \<le> depth r)
              \<and> sorted_wrt emittedBefore new"
      using new(1) by (intro exI[of _ "?r # new"]) simp
  qed
next
  case (packed ty endPos obj bp d g pos regs res tag p1 f name p3 obj2)
  let ?r = "\<lparr>start = pos + g, end_off = p3 + g, path = joinPath bp name,
            rtype = ''packed '' @ ftype f, wireType = 2, fieldName = name, depth = d\<rparr>"
  show ?case
  proof
    assume g: "g = 0"
    with packed.IH obtain new where new: "snd (snd res) = (regs @ [?r]) @ new"
      "\<forall>r\<in>set new. p3 \<le> start r \<and> end_off r \<le> fst (snd res) \<and> d \<le> depth r"
      "sorted_wrt emittedBefore new" by blast
    have le: "pos \<le> p3" using uint32_progress[OF packed.hyps(2)] packed.hyps(5) by simp
    have le2: "p3 \<le> fst (snd res)"
      using readMessage_mono[of env buf ty endPos obj2 bp d g p3 _ "fst res" "fst (snd res)" "snd (snd res)"]
        packed.hyps(6) by simp
    have "\<forall>r\<in>set (?r # new). pos \<le> start r \<and> end_off r \<le> fst (snd res) \<and> d \<le> depth r"
      using new(2) le le2 g by auto
    moreover have "sorted_wrt emittedBefore (?r # new)"
      using new(2,3) g by (auto simp: emittedBefore_def)
    ultimately show "\<exists>new. snd (snd res) = regs @ new
              \<and> (\<forall>r\<in>set new. pos \<le> start r \<and> end_off r \<le> fst (snd res) \<and> d \<le> depth r)
              \<and> sorted_wrt emittedBefore new"
      using new(1) by (intro exI[of _ "?r # new"]) simp
  qed
next
  case (nested ty endPos obj bp d g pos regs res tag p1 f name n p2 nobj p3 regs3 obj2 cp)
  let ?w = "\<lparr>start = pos, end_off = p3, path = cp, rtype = ftype f, wireType = 2,
            fieldName = name, depth = d\<rparr>"
  show ?case
  proof
    assume g: "g = 0"
    from nested.IH(1) obtain inner where inner: "regs3 = regs @ inner"
      "\<forall>r\<in>set inner. p2 \<le> start r \<and> end_off r \<le> p3 \<and> d + 1 \<le> depth r"
      "sorted_wrt emittedBefore inner" by auto
    from nested.IH(2) g obtain new where new: "snd (snd res) = (regs3 @ [?w]) @ new"
      "\<forall>r\<in>set new. p3 \<le> start r \<and> end_off r \<le> fst (snd res) \<and> d \<le> depth r"
      "sorted_wrt emittedBefore new" by blast
    have le: "pos \<le> p2"
      using uint32_progress[OF nested.hyps(2)] uint32_progress[OF nested.hyps(5)] by simp
    have le1: "p2 \<le> p3" using readMessage_mono[OF nested.hyps(7)] .
    have le2: "p3 \<le> fst (snd res)"
      using readMessage_mono[of env buf ty endPos obj2 bp d g p3 _ "fst res" "fst (snd res)" "snd (snd res)"]
        nested.hyps(8) by simp
    have bounds: "\<forall>r\<in>set (inner @ ?w # new).
        pos \<le> start r \<and> end_off r \<le> fst (snd res) \<and> d \<le> depth r"
      using inner(2) new(2) le le1 le2 by fastforce
    have "sorted_wrt emittedBefore (?w # new)"
      using new(2,3) by (auto simp: emittedBefore_def)
    moreover have "\<forall>x\<in>set inner. \<forall>y\<in>set (?w # new). emittedBefore x y"
      using inner(2) new(2) le by (fastforce simp: emittedBefore_def)
    ultimately have "sorted_wrt emittedBefore (inner @ ?w # new)"
      using inner(3) by (simp add: sorted_wrt_append)
    with bounds show "\<exists>new. snd (snd res) = regs @ new
              \<and> (\<forall>r\<in>set new. pos \<le> start r \<and> end_off r \<le> fst (snd res) \<and> d \<le> depth r)
              \<and> sorted_wrt emittedBefore new"
      using new(1) inner(1) by (intro exI[of _ "inner @ ?w # new"]) simp
  qed
qed

lemma readMessage_nested_shape:
  assumes "pos < endPos" and "uint32 buf pos = Inr (tag, p1)"
    and "findField (env ty) (unat (drop_bit 3 tag)) = Some f"
    and "\<not> is_map f" and "\<not> (repeated f \<and> packed f)"
    and "unat (tag AND 7) = 2" and "isType (resolvedType f)"
    and "uint32 buf p1 = Inr (n, p2)"
    and run: "readMessage env buf ty endPos obj bp d g pos regs = Inr (obj', p', regs')"
  shows "\<exists>nestedObj p3 inner rest.
      readMessage env buf (typeName (resolvedType f)) (p2 + unat n) []
        (indexedPath (Some f) (fname f) (ensureArray (Some f) (fname f) obj) (joinPath bp (fname f)))
        (d + 1) 0 p2 regs = Inr (nestedObj, p3, regs @ inner)
      \<and> regs' = regs @ inner @
           [\<lparr>start = pos, end_off = p3,
              path = indexedPath (Some f) (fname f) (ensureArray (Some f) (fname f) obj)
                       (joinPath bp (fname f)),
              rtype = ftype f, wireType = 2, fieldName = fname f, depth = d\<rparr>] @ rest"
proof -
  let ?obj1 = "ensureArray (Some f) (fname f) obj"
  let ?cp = "indexedPath (Some f) (fname f) ?obj1 (joinPath bp (fname f))"
  let ?inner = "readMessage env buf (typeName (resolvedType f)) (p2 + unat n) [] ?cp (d + 1) 0 p2 regs"
  have eq: "readMessage env buf ty endPos obj bp d g pos regs =
    (case store ?obj1 f (Obj []) of
       Inl e \<Rightarrow> Inl e
     | Inr _ \<Rightarrow>
         (case ?inner of
            Inl e \<Rightarrow> Inl e
          | Inr (nestedObj, p3, regs3) \<Rightarrow>
              (case store ?obj1 f (Obj nestedObj) of
                 Inl e \<Rightarrow> Inl e
               | Inr obj2 \<Rightarrow>
                   readMessage env buf ty endPos obj2 bp d g p3
                     (regs3 @ [\<lparr>start = pos, end_off = p3, path = ?cp, rtype = ftype f,
                        wireType = 2, fieldName = fname f, depth = d\<rparr>]))))"
    by (subst readMessage.simps) (simp add: assms(1-8) Let_def fieldNameOf_def split: sum.splits)
  from run[unfolded eq] obtain nestedObj p3 regs3 obj2 where
    inner: "?inner = Inr (nestedObj, p3, regs3)" and
    cont: "readMessage env buf ty endPos obj2 bp d g p3
             (regs3 @ [\<lparr>start = pos, end_off = p3, path = ?cp, rtype = ftype f,
                wireType = 2, fieldName = fname f, depth = d\<rparr>]) = Inr (obj', p', regs')"
    by (auto split: sum.splits)
  from readMessage_regions_nonempty[OF inner] obtain new1 where n1: "regs3 = regs @ new1" by auto
  from readMessage_regions_nonempty[OF cont] obtain new2 where
    n2: "regs' = (regs3 @ [\<lparr>start = pos, end_off = p3, path = ?cp, rtype = ftype f,
                wireType = 2, fieldName = fname f, depth = d\<rparr>]) @ new2" by auto
  from inner n1 n2 show ?thesis by auto
qed

text \<open>
  C7, as amended. The region of a nested message field is appended after the recursive call
  returns (line 151 follows line 112), and every other region when its field has been read.
  So the list of a successful decode is in post-order: of two regions of the list the
  earlier one ends where the later one starts or before, or it lies within the later one
  and is deeper; and a region that encloses a deeper region comes after it. In particular
  the region of a nested message field comes after the regions of the fields decoded
  inside it: when the loop reads a nested message, the regions the recursive call adds
  are followed at once by the region of the field itself.
\<close>

theorem C7_nested_region_order:
  assumes "decodeWithRegions env type buf = Inr (result, regions)"
  shows "sorted_wrt emittedBefore regions
    \<and> (\<forall>i<length regions. \<forall>j<length regions.
          start (regions ! i) \<le> start (regions ! j) \<and> end_off (regions ! j) \<le> end_off (regions ! i)
          \<and> depth (regions ! i) < depth (regions ! j) \<longrightarrow> j < i)
    \<and> (pos < endPos \<and> uint32 buf pos = Inr (tag, p1)
          \<and> findField (env ty) (unat (drop_bit 3 tag)) = Some f
          \<and> \<not> is_map f \<and> \<not> (repeated f \<and> packed f)
          \<and> unat (tag AND 7) = 2 \<and> isType (resolvedType f)
          \<and> uint32 buf p1 = Inr (n, p2)
          \<and> readMessage env buf ty endPos obj bp d g pos regs = Inr (obj', p', regs') \<longrightarrow>
        (\<exists>nestedObj p3 inner rest.
           readMessage env buf (typeName (resolvedType f)) (p2 + unat n) []
             (indexedPath (Some f) (fname f) (ensureArray (Some f) (fname f) obj) (joinPath bp (fname f)))
             (d + 1) 0 p2 regs = Inr (nestedObj, p3, regs @ inner)
           \<and> regs' = regs @ inner @
                [\<lparr>start = pos, end_off = p3,
                   path = indexedPath (Some f) (fname f) (ensureArray (Some f) (fname f) obj)
                            (joinPath bp (fname f)),
                   rtype = ftype f, wireType = 2, fieldName = fname f, depth = d\<rparr>] @ rest))"
proof -
  have shape: "pos < endPos \<and> uint32 buf pos = Inr (tag, p1)
          \<and> findField (env ty) (unat (drop_bit 3 tag)) = Some f
          \<and> \<not> is_map f \<and> \<not> (repeated f \<and> packed f)
          \<and> unat (tag AND 7) = 2 \<and> isType (resolvedType f)
          \<and> uint32 buf p1 = Inr (n, p2)
          \<and> readMessage env buf ty endPos obj bp d g pos regs = Inr (obj', p', regs') \<Longrightarrow>
        (\<exists>nestedObj p3 inner rest.
           readMessage env buf (typeName (resolvedType f)) (p2 + unat n) []
             (indexedPath (Some f) (fname f) (ensureArray (Some f) (fname f) obj) (joinPath bp (fname f)))
             (d + 1) 0 p2 regs = Inr (nestedObj, p3, regs @ inner)
           \<and> regs' = regs @ inner @
                [\<lparr>start = pos, end_off = p3,
                   path = indexedPath (Some f) (fname f) (ensureArray (Some f) (fname f) obj)
                            (joinPath bp (fname f)),
                   rtype = ftype f, wireType = 2, fieldName = fname f, depth = d\<rparr>] @ rest)"
    using readMessage_nested_shape[where env=env and ty=ty and pos=pos and endPos=endPos and buf=buf
        and tag=tag and ?p1.0=p1 and f=f and obj=obj and bp=bp and d=d and g=g and regs=regs
        and n=n and ?p2.0=p2 and obj'=obj' and p'=p' and regs'=regs']
    by blast
  from assms obtain pos where
    run: "readMessage env buf type (length buf) [] [] 0 0 0 [] = Inr (result, pos, regions)"
    by (auto simp: decodeWithRegions_def split: sum.splits)
  from readMessage_emission_order[OF run] have sorted: "sorted_wrt emittedBefore regions" by simp
  from readMessage_regions_nonempty[OF run] have ne: "\<forall>r\<in>set regions. start r < end_off r" by simp
  have "j < i" if i: "i < length regions" and j: "j < length regions"
    and enc: "start (regions ! i) \<le> start (regions ! j)" "end_off (regions ! j) \<le> end_off (regions ! i)"
      "depth (regions ! i) < depth (regions ! j)" for i j
  proof (rule ccontr)
    assume "\<not> j < i"
    with enc(3) have "i < j" by (cases "i = j") auto
    with sorted j have "emittedBefore (regions ! i) (regions ! j)"
      by (simp add: sorted_wrt_iff_nth_less)
    moreover have "start (regions ! j) < end_off (regions ! j)" using ne j by simp
    ultimately show False using enc by (auto simp: emittedBefore_def)
  qed
  with sorted shape show ?thesis by blast
qed

theorem C7_nested_region_order_witness:
  "decodeWithRegions nestedSchema ''Outer'' [0x0A, 0x02, 0x08, 0x07, 0x0A, 0x02, 0x08, 0x09] =
     Inr ([(''inner'', Obj [(''x'', Num 9)])],
          [\<lparr>start = 2, end_off = 4, path = ''inner.x'', rtype = ''int32'', wireType = 0,
              fieldName = ''x'', depth = 1\<rparr>,
           \<lparr>start = 0, end_off = 4, path = ''inner'', rtype = ''Inner'', wireType = 2,
              fieldName = ''inner'', depth = 0\<rparr>,
           \<lparr>start = 6, end_off = 8, path = ''inner.x'', rtype = ''int32'', wireType = 0,
              fieldName = ''x'', depth = 1\<rparr>,
           \<lparr>start = 4, end_off = 8, path = ''inner'', rtype = ''Inner'', wireType = 2,
              fieldName = ''inner'', depth = 0\<rparr>])
   \<and> sorted_wrt emittedBefore
          [\<lparr>start = 2, end_off = 4, path = ''inner.x'', rtype = ''int32'', wireType = 0,
              fieldName = ''x'', depth = 1\<rparr>,
           \<lparr>start = 0, end_off = 4, path = ''inner'', rtype = ''Inner'', wireType = 2,
              fieldName = ''inner'', depth = 0\<rparr>,
           \<lparr>start = 6, end_off = 8, path = ''inner.x'', rtype = ''int32'', wireType = 0,
              fieldName = ''x'', depth = 1\<rparr>,
           \<lparr>start = 4, end_off = 8, path = ''inner'', rtype = ''Inner'', wireType = 2,
              fieldName = ''inner'', depth = 0\<rparr>]"
proof -
  have run: "decodeWithRegions nestedSchema ''Outer'' [0x0A, 0x02, 0x08, 0x07, 0x0A, 0x02, 0x08, 0x09] =
     Inr ([(''inner'', Obj [(''x'', Num 9)])],
          [\<lparr>start = 2, end_off = 4, path = ''inner.x'', rtype = ''int32'', wireType = 0,
              fieldName = ''x'', depth = 1\<rparr>,
           \<lparr>start = 0, end_off = 4, path = ''inner'', rtype = ''Inner'', wireType = 2,
              fieldName = ''inner'', depth = 0\<rparr>,
           \<lparr>start = 6, end_off = 8, path = ''inner.x'', rtype = ''int32'', wireType = 0,
              fieldName = ''x'', depth = 1\<rparr>,
           \<lparr>start = 4, end_off = 8, path = ''inner'', rtype = ''Inner'', wireType = 2,
              fieldName = ''inner'', depth = 0\<rparr>])"
    by code_simp
  from C7_nested_region_order[OF run] run show ?thesis by simp
qed

text \<open>
  C7 as stated fails: the list is not in pre-order. For
  \<^verbatim>\<open>Outer { inner: Inner { x: 7 } }\<close> (bytes 0A 02 08 07) the list is the region of
  \<^verbatim>\<open>inner.x\<close>, then the region of \<^verbatim>\<open>inner\<close>: the region of the nested message field
  comes after the region of the field decoded inside it.
\<close>

theorem C7_preorder_counterexample:
  "decodeWithRegions nestedSchema ''Outer'' [0x0A, 0x02, 0x08, 0x07] =
     Inr ([(''inner'', Obj [(''x'', Num 7)])],
          [\<lparr>start = 2, end_off = 4, path = ''inner.x'', rtype = ''int32'', wireType = 0,
              fieldName = ''x'', depth = 1\<rparr>,
           \<lparr>start = 0, end_off = 4, path = ''inner'', rtype = ''Inner'', wireType = 2,
              fieldName = ''inner'', depth = 0\<rparr>])"
  by code_simp

section \<open>Overshooting an end position\<close>

lemma readMessage_ends_at_or_past:
  assumes "readMessage env buf ty endPos obj bp d g pos regs = Inr res"
  shows "endPos \<le> fst (snd res)"
  using assms
  by (induction rule: readMessage_success_induct) simp_all

lemma readPacked_ends_at_or_past:
  "readPacked buf t packedEnd arr pos = Inr (arr', p) \<Longrightarrow> packedEnd \<le> p"
proof (induction buf t packedEnd arr pos rule: readPacked.induct)
  case (1 buf t packedEnd arr pos)
  show ?case
  proof (cases "pos < packedEnd")
    case False
    with 1(2) show ?thesis by (subst (asm) readPacked.simps) simp
  next
    case True
    with 1(2) obtain m v p1 arr1 where
      m: "readerMethod t = Some m" and r: "m buf pos = Inr (v, p1)"
      and pu: "push arr v = Inr arr1" and rest: "readPacked buf t packedEnd arr1 p1 = Inr (arr', p)"
      by (subst (asm) readPacked.simps) (auto split: option.splits sum.splits)
    from 1(1)[OF True m r refl pu rest] show ?thesis .
  qed
qed

text \<open>
  C5, as amended. An overshoot is not detected. The loop of \<^verbatim>\<open>readMessage\<close> and the
  loop over a packed block run while the cursor is in front of the end position and return
  normally as soon as it is not, whether the cursor is on the end position or strictly past
  it. What holds of a successful run is only that it does not stop in front of the end
  position and never moves the cursor back.
\<close>

theorem C5_overshoot_not_detected:
  "(\<not> pos < endPos \<longrightarrow>
      readMessage env buf type endPos obj bp d g pos regs = Inr (obj, pos, regs))
   \<and> (\<not> pos < packedEnd \<longrightarrow> readPacked buf t packedEnd arr pos = Inr (arr, pos))
   \<and> (readMessage env buf type endPos obj bp d g pos regs = Inr (obj', p', regs') \<longrightarrow>
        endPos \<le> p' \<and> pos \<le> p')
   \<and> (readPacked buf t packedEnd arr pos = Inr (arr', p'') \<longrightarrow> packedEnd \<le> p'' \<and> pos \<le> p'')"
proof -
  have "\<not> pos < endPos \<Longrightarrow> readMessage env buf type endPos obj bp d g pos regs = Inr (obj, pos, regs)"
    by (subst readMessage.simps) simp
  moreover have "\<not> pos < packedEnd \<Longrightarrow> readPacked buf t packedEnd arr pos = Inr (arr, pos)"
    by (subst readPacked.simps) simp
  moreover have "readMessage env buf type endPos obj bp d g pos regs = Inr (obj', p', regs') \<Longrightarrow>
        endPos \<le> p' \<and> pos \<le> p'"
    using readMessage_ends_at_or_past[of env buf type endPos obj bp d g pos regs "(obj', p', regs')"]
      readMessage_mono[of env buf type endPos obj bp d g pos regs obj' p' regs'] by simp
  moreover have "readPacked buf t packedEnd arr pos = Inr (arr', p'') \<Longrightarrow> packedEnd \<le> p'' \<and> pos \<le> p''"
    using readPacked_ends_at_or_past[of buf t packedEnd arr pos arr' p'']
      readPacked_mono[of buf t packedEnd arr pos arr' p''] by simp
  ultimately show ?thesis by blast
qed

theorem C5_overshoot_not_detected_witness:
  "readMessage nestedSchema [0x0A, 0x01, 0x08, 0x07] ''Inner'' 3 [] ''inner'' 1 0 4 [] = Inr ([], 4, [])
   \<and> readMessage nestedSchema [0x0A, 0x01, 0x08, 0x07] ''Inner'' 3 [] ''inner'' 1 0 2 [] =
       Inr ([(''x'', Num 7)], 4,
            [\<lparr>start = 2, end_off = 4, path = ''inner.x'', rtype = ''int32'', wireType = 0,
                fieldName = ''x'', depth = 1\<rparr>])
   \<and> (3::nat) \<le> 4"
proof -
  have run: "readMessage nestedSchema [0x0A, 0x01, 0x08, 0x07] ''Inner'' 3 [] ''inner'' 1 0 2 [] =
       Inr ([(''x'', Num 7)], 4,
            [\<lparr>start = 2, end_off = 4, path = ''inner.x'', rtype = ''int32'', wireType = 0,
                fieldName = ''x'', depth = 1\<rparr>])"
    by code_simp
  from C5_overshoot_not_detected[of 4 3 nestedSchema "[0x0A, 0x01, 0x08, 0x07]" "''Inner''" "[]" "''inner''" 1 0 "[]"]
  have "readMessage nestedSchema [0x0A, 0x01, 0x08, 0x07] ''Inner'' 3 [] ''inner'' 1 0 4 [] = Inr ([], 4, [])"
    by simp
  with run show ?thesis by simp
qed

text \<open>
  C5 as stated fails. In the bytes 0A 01 08 07 the nested message declares one byte, so its
  end position is 3; its field \<^verbatim>\<open>x\<close> is read up to 4, the nested call returns with the
  cursor at 4 and the decode succeeds. In the bytes 0A 01 80 01 the packed block declares one
  byte, its end is 3; the varint 80 01 is read up to 4 and the decode succeeds.
\<close>

theorem C5_overshoot_counterexample:
  "readMessage nestedSchema [0x0A, 0x01, 0x08, 0x07] ''Inner'' 3 [] ''inner'' 1 0 2 [] =
       Inr ([(''x'', Num 7)], 4,
            [\<lparr>start = 2, end_off = 4, path = ''inner.x'', rtype = ''int32'', wireType = 0,
                fieldName = ''x'', depth = 1\<rparr>])
   \<and> decodeWithRegions nestedSchema ''Outer'' [0x0A, 0x01, 0x08, 0x07] =
       Inr ([(''inner'', Obj [(''x'', Num 7)])],
            [\<lparr>start = 2, end_off = 4, path = ''inner.x'', rtype = ''int32'', wireType = 0,
                fieldName = ''x'', depth = 1\<rparr>,
             \<lparr>start = 0, end_off = 4, path = ''inner'', rtype = ''Inner'', wireType = 2,
                fieldName = ''inner'', depth = 0\<rparr>])
   \<and> readPacked [0x0A, 0x01, 0x80, 0x01] ''int32'' 3 (Arr []) 2 = Inr (Arr [Num 128], 4)
   \<and> decodeWithRegions packedSchema ''Nums'' [0x0A, 0x01, 0x80, 0x01] =
       Inr ([(''nums'', Arr [Num 128])],
            [\<lparr>start = 0, end_off = 4, path = ''nums'', rtype = ''packed int32'', wireType = 2,
                fieldName = ''nums'', depth = 0\<rparr>])"
  by code_simp

section \<open>The failure delivered to the caller\<close>

text \<open>
  C8, as amended. Every exception raised while decoding is replaced by one failure with the
  fixed message \<^verbatim>\<open>Failed to decode binary with provided proto type.\<close>; it carries
  neither the type name nor an offset (the original exception is only logged). A failure
  returns no value tree and no region list; a success returns both.
\<close>

theorem C8_failure_is_fixed_message:
  "(case readMessage env buf type (length buf) [] [] 0 0 0 [] of
      Inl err \<Rightarrow>
        decodeWithRegions env type buf = Inl ''Failed to decode binary with provided proto type.''
    | Inr (result, pos, regions) \<Rightarrow> decodeWithRegions env type buf = Inr (result, regions))"
  by (simp add: decodeWithRegions_def split: sum.splits)

text \<open>
  C8 as stated fails. Decoding 0A 05 41 as \<^verbatim>\<open>Person\<close> fails at offset 2, decoding
  0A 02 08 07 0A 09 as \<^verbatim>\<open>Outer\<close> fails at offset 6; the caller receives the same
  failure both times, so the failure tells neither the type nor the offset.
\<close>

theorem C8_failure_counterexample:
  "readMessage personSchema [0x0A, 0x05, 0x41] ''Person'' 3 [] [] 0 0 0 [] = Inl (RangeError 2 3)
   \<and> readMessage nestedSchema [0x0A, 0x02, 0x08, 0x07, 0x0A, 0x09] ''Outer'' 6 [] [] 0 0 0 []
       = Inl (RangeError 6 6)
   \<and> decodeWithRegions personSchema ''Person'' [0x0A, 0x05, 0x41]
       = Inl ''Failed to decode binary with provided proto type.''
   \<and> decodeWithRegions nestedSchema ''Outer'' [0x0A, 0x02, 0x08, 0x07, 0x0A, 0x09]
       = Inl ''Failed to decode binary with provided proto type.''"
  by code_simp

section \<open>Packed fields whose type names no function of the reader\<close>

text \<open>
  A call that fails makes every call that made it fail, with the same error: no call of
  \<^verbatim>\<open>readMessage\<close> catches an exception.
\<close>

lemma makesCall_error:
  assumes "makesCall env buf c c'" and "run env buf c' = Inl e"
  shows "run env buf c = Inl e"
  using assms
  by (cases rule: makesCall.cases;
      simp; subst readMessage.simps; auto simp add: Let_def fieldNameOf_def)

lemma reaches_error:
  assumes "(makesCall env buf)\<^sup>*\<^sup>* c c'" and "run env buf c' = Inl e"
  shows "run env buf c = Inl e"
  using assms
  by (induction rule: converse_rtranclp_induct) (auto intro: makesCall_error)


text \<open>
  C9, as amended. When the loop reaches a packed block (a repeated packed field that is not
  a map, with wire type 2) whose type name is not the name of a function of the reader, and
  the block's declared length is not zero, the call \<^verbatim>\<open>reader[field.type]()\<close> raises a
  TypeError and there is no placeholder: the call of \<^verbatim>\<open>readMessage\<close> fails, and so
  does the whole decode whenever the decode of the buffer makes that call, at whatever
  depth and after whatever was decoded before.
\<close>

theorem C9_packed_unreadable_type:
  assumes "pos < endPos" and "uint32 buf pos = Inr (tag, p1)"
    and "findField (env type) (unat (drop_bit 3 tag)) = Some f"
    and "\<not> is_map f" and "repeated f" and "packed f" and "unat (tag AND 7) = 2"
    and "readerMethod (ftype f) = None"
    and "uint32 buf p1 = Inr (n, p2)" and "0 < unat n"
  shows "readMessage env buf type endPos obj bp d g pos regs = Inl TypeError
    \<and> ((makesCall env buf)\<^sup>*\<^sup>* (root, length buf, [], [], 0, 0, 0, [])
            (type, endPos, obj, bp, d, g, pos, regs) \<longrightarrow>
         decodeWithRegions env root buf = Inl ''Failed to decode binary with provided proto type.'')"
proof -
  have "readPacked buf (ftype f) (p2 + unat n)
          (getProp (ensureArray (Some f) (fname f) obj) (fname f)) p2 = Inl TypeError"
    using assms(8,10) by (subst readPacked.simps) simp
  then have *: "readMessage env buf type endPos obj bp d g pos regs = Inl TypeError"
    by (simp add: readMessage_step_packed[where env=env and ty=type, OF assms(1-7,9)])
  have "decodeWithRegions env root buf = Inl ''Failed to decode binary with provided proto type.''"
    if "(makesCall env buf)\<^sup>*\<^sup>* (root, length buf, [], [], 0, 0, 0, [])
            (type, endPos, obj, bp, d, g, pos, regs)"
    using reaches_error[OF that, of TypeError] * by (simp add: decodeWithRegions_def)
  with * show ?thesis by blast
qed


theorem C9_packed_unreadable_type_witness:
  "readerMethod ''Color'' = None
   \<and> readMessage boxSchema [0x0A, 0x03, 0x0A, 0x01, 0x01] ''Palette'' 5 [] ''palette'' 1 0 2 []
       = Inl TypeError
   \<and> decodeWithRegions boxSchema ''Box'' [0x0A, 0x03, 0x0A, 0x01, 0x01]
       = Inl ''Failed to decode binary with provided proto type.''"
proof -
  let ?buf = "[0x0A, 0x03, 0x0A, 0x01, 0x01] :: buffer"
  let ?box = "messageField 1 ''palette'' ''Palette''"
  let ?col = "packedField 1 ''colors'' ''Color'' ResolvedEnum"
  have u0: "uint32 ?buf 0 = Inr (10, 1)" and u1: "uint32 ?buf 1 = Inr (3, 2)"
    and u2: "uint32 ?buf 2 = Inr (10, 3)" and u3: "uint32 ?buf 3 = Inr (1, 4)"
    by (simp_all add: uint32_def low7_def lt128_def)
  have t10: "unat (drop_bit 3 (10 :: 32 word)) = 1" "unat ((10 :: 32 word) AND 7) = 2"
    by simp_all
  have f0: "findField (boxSchema ''Box'') (unat (drop_bit 3 (10 :: 32 word))) = Some ?box"
    by (simp add: findField_def boxSchema_def messageField_def)
  have f1: "findField (boxSchema ''Palette'') (unat (drop_bit 3 (10 :: 32 word))) = Some ?col"
    by (simp add: findField_def boxSchema_def packedField_def)
  have h5: "readerMethod ''Color'' = None"
    by (simp add: readerMethod_def primitiveRead_def otherMember_def)
  have h4: "readerMethod (ftype ?col) = None"
    by (simp add: readerMethod_def primitiveRead_def otherMember_def packedField_def)
  have call: "makesCall boxSchema ?buf (''Box'', length ?buf, [], [], 0, 0, 0, [])
     (''Palette'', 5, [], ''palette'', 1, 0, 2, [])"
    using makesCall.nested[of 0 "length ?buf" ?buf 10 1 boxSchema "''Box''" ?box "[]" "[]" 3 2
        "[(''palette'', Obj [])]" "[]" 0 0 "[]", OF _ u0 f0] u1
    by (simp add: messageField_def ensureArray_def isRepeated_def store_def setProp_def
        indexedPath_def joinPath_def)
  then have reach: "(makesCall boxSchema ?buf)\<^sup>*\<^sup>* (''Box'', length ?buf, [], [], 0, 0, 0, [])
     (''Palette'', 5, [], ''palette'', 1, 0, 2, [])" by blast
  from C9_packed_unreadable_type[of 2 5 ?buf 10 3 boxSchema "''Palette''" ?col 1 4
      "[]" "''palette''" 1 0 "[]" "''Box''", OF _ u2 f1 _ _ _ _ h4 u3] reach h5
  show ?thesis by (simp add: packedField_def)
qed


text \<open>
  C9 as stated fails in two ways. For an empty block the loop over the block is not entered,
  no function of the reader is called, and the decode succeeds with one region for the
  block (bytes 0A 00 for a packed field of the enum type \<^verbatim>\<open>Color\<close>). And a type name
  that is no primitive read method may still name a function of the reader: for a packed
  field of an enum type named \<^verbatim>\<open>skip\<close> the loop calls \<^verbatim>\<open>reader.skip()\<close>, which
  steps over one varint and returns the reader, and the decode of the bytes 0A 01 05
  succeeds.
\<close>

theorem C9_empty_block_counterexample:
  "readerMethod ''Color'' = None
   \<and> findField (packedSchema ''Palette'') 1 = Some (packedField 1 ''colors'' ''Color'' ResolvedEnum)
   \<and> decodeWithRegions packedSchema ''Palette'' [0x0A, 0x00] =
       Inr ([(''colors'', Arr [])],
            [\<lparr>start = 0, end_off = 2, path = ''colors'', rtype = ''packed Color'', wireType = 2,
                fieldName = ''colors'', depth = 0\<rparr>])
   \<and> primitiveRead ''skip'' = None
   \<and> findField (skipSchema ''S'') 1 = Some (packedField 1 ''xs'' ''skip'' ResolvedEnum)
   \<and> decodeWithRegions skipSchema ''S'' [0x0A, 0x01, 0x05] =
       Inr ([(''xs'', Arr [ReaderObject])],
            [\<lparr>start = 0, end_off = 3, path = ''xs'', rtype = ''packed skip'', wireType = 2,
                fieldName = ''xs'', depth = 0\<rparr>])"
  by code_simp

section \<open>A field that occurs twice\<close>




section \<open>Nesting of the regions\<close>

lemma isMessageAncestorPath_iff: "isMessageAncestorPath a b \<longleftrightarrow> (\<exists>rest. b = a @ ''.'' @ rest)"
proof
  assume "isMessageAncestorPath a b"
  then have "take (length a + 1) b = a @ ''.''" by (simp add: isMessageAncestorPath_def)
  then have "b = (a @ ''.'') @ drop (length a + 1) b" by (metis append_take_drop_id)
  then show "\<exists>rest. b = a @ ''.'' @ rest" by (metis append_assoc)
next
  assume "\<exists>rest. b = a @ ''.'' @ rest"
  then show "isMessageAncestorPath a b" by (auto simp: isMessageAncestorPath_def)
qed

lemma dotfree_no_ancestor:
  "CHR ''.'' \<notin> set s \<Longrightarrow> \<not> isMessageAncestorPath q s"
  by (auto simp: isMessageAncestorPath_iff)

lemma dotfree_no_ancestor_below:
  assumes "CHR ''.'' \<notin> set s" and "isMessageAncestorPath q (bp @ ''.'' @ s)" and "isMessageAncestorPath bp q"
  shows False
proof -
  from assms(3) obtain r where q: "q = bp @ ''.'' @ r" by (auto simp: isMessageAncestorPath_iff)
  from assms(2) obtain rest where "bp @ ''.'' @ s = q @ ''.'' @ rest" by (auto simp: isMessageAncestorPath_iff)
  with q have "s = r @ ''.'' @ rest" by simp
  with assms(1) show False by simp
qed

lemma ancestor_take: "isMessageAncestorPath q p \<Longrightarrow> take (length q) p = q"
  by (auto simp: isMessageAncestorPath_iff)

lemma ancestor_shorter:
  assumes "isMessageAncestorPath q p" and "isMessageAncestorPath c p" and "length c < length q"
  shows "isMessageAncestorPath c q"
proof -
  from assms(1) obtain r1 where p1: "p = q @ ''.'' @ r1" by (auto simp: isMessageAncestorPath_iff)
  from assms(2) have "take (length c + 1) p = c @ ''.''" by (simp add: isMessageAncestorPath_def)
  moreover have "take (length c + 1) p = take (length c + 1) q"
    using assms(3) by (simp add: p1)
  ultimately show ?thesis by (simp add: isMessageAncestorPath_def)
qed

lemma ancestors_comparable:
  assumes "isMessageAncestorPath q p" and "isMessageAncestorPath c p"
  shows "q = c \<or> isMessageAncestorPath c q \<or> isMessageAncestorPath q c"
proof -
  consider "length q = length c" | "length c < length q" | "length q < length c" by arith
  then show ?thesis
  proof cases
    case 1
    have "q = take (length q) p" using ancestor_take[OF assms(1)] by simp
    also have "\<dots> = take (length c) p" using 1 by simp
    also have "\<dots> = c" using ancestor_take[OF assms(2)] by simp
    finally show ?thesis by blast
  next
    case 2
    from ancestor_shorter[OF assms 2] show ?thesis by blast
  next
    case 3
    from ancestor_shorter[OF assms(2) assms(1) 3] show ?thesis by blast
  qed
qed

lemma ancestor_trans:
  "isMessageAncestorPath a b \<Longrightarrow> isMessageAncestorPath b c \<Longrightarrow> isMessageAncestorPath a c"
  by (auto simp: isMessageAncestorPath_iff)

lemma digit_not_dot: "d < 10 \<Longrightarrow> digit d \<noteq> CHR ''.''"
proof -
  assume "d < 10"
  then have "''0123456789'' ! d \<in> set ''0123456789''" by (intro nth_mem) simp
  then show ?thesis unfolding digit_def by auto
qed

lemma showNat_dotfree: "CHR ''.'' \<notin> set (showNat n)"
proof (induction n rule: showNat.induct)
  case (1 n)
  show ?case
  proof (cases "n < 10")
    case True
    then show ?thesis using digit_not_dot[of n] by (subst showNat.simps) simp
  next
    case False
    have "n mod 10 < 10" by simp
    with 1[OF False] False digit_not_dot[of "n mod 10"] show ?thesis
      by (subst showNat.simps) simp
  qed
qed

lemma fieldName_ok:
  assumes "dotFreeNames env"
  shows "CHR ''.'' \<notin> set (fieldNameOf (findField (env ty) n) n)"
proof (cases "findField (env ty) n")
  case None
  then show ?thesis using showNat_dotfree[of n] by (simp add: fieldNameOf_def)
next
  case (Some f)
  then have "f \<in> set (env ty)" by (auto simp: findField_def find_Some_iff)
  with assms Some show ?thesis by (auto simp: dotFreeNames_def fieldNameOf_def)
qed

lemma indexedPath_segment:
  assumes "CHR ''.'' \<notin> set name"
  shows "\<exists>seg. indexedPath fld name obj (joinPath bp name) = joinPath bp seg
           \<and> CHR ''.'' \<notin> set seg"
proof (cases "isRepeated fld \<and> isArray (getProp obj name)")
  case True
  let ?seg = "name @ ''['' @ showNat (arrayLength (getProp obj name)) @ '']''"
  have "indexedPath fld name obj (joinPath bp name) = joinPath bp ?seg"
    using True by (simp add: indexedPath_def joinPath_def)
  moreover have "CHR ''.'' \<notin> set ?seg" using assms showNat_dotfree by simp
  ultimately show ?thesis by blast
next
  case False
  then have "indexedPath fld name obj (joinPath bp name) = joinPath bp name"
    by (auto simp: indexedPath_def)
  with assms show ?thesis by blast
qed

lemma joinPath_below: "bp \<noteq> [] \<Longrightarrow> isMessageAncestorPath bp (joinPath bp seg)"
  by (simp add: joinPath_def isMessageAncestorPath_iff)

lemma joinPath_empty: "joinPath bp seg = [] \<Longrightarrow> bp = []"
  by (simp add: joinPath_def split: if_splits)

lemma joinPath_no_ancestor:
  assumes "CHR ''.'' \<notin> set seg" and "isMessageAncestorPath q (joinPath bp seg)"
    and "bp = [] \<or> isMessageAncestorPath bp q"
  shows False
proof (cases "bp = []")
  case True
  with assms(1,2) show False by (simp add: joinPath_def dotfree_no_ancestor)
next
  case False
  with assms show False
    using dotfree_no_ancestor_below[of seg q bp] by (simp add: joinPath_def)
qed


lemma nestedIn_Nil: "nestedIn bp lo hi []"
  by (simp add: nestedIn_def)

lemma nestedIn_leaf:
  assumes seg: "CHR ''.'' \<notin> set seg" and r: "path r = joinPath bp seg" "start r = lo" "end_off r = mid"
    and le: "lo \<le> mid" "mid \<le> hi" and rest: "nestedIn bp mid hi rest"
  shows "nestedIn bp lo hi (r # rest)"
proof -
  have a: "\<forall>x\<in>set (r # rest). lo \<le> start x \<and> end_off x \<le> hi"
    using r le rest by (auto simp: nestedIn_def)
  have b: "bp \<noteq> [] \<longrightarrow> (\<forall>x\<in>set (r # rest). isMessageAncestorPath bp (path x))"
    using r(1) rest joinPath_below[of bp seg] by (auto simp: nestedIn_def)
  have c: "\<exists>a\<in>set (r # rest). path a = q \<and> start a \<le> start b \<and> end_off b \<le> end_off a"
    if b: "b \<in> set (r # rest)" and q: "isMessageAncestorPath q (path b)" "bp = [] \<or> isMessageAncestorPath bp q" for b q
  proof (cases "b = r")
    case True
    with q r(1) joinPath_no_ancestor[OF seg, of q bp] show ?thesis by simp
  next
    case False
    with b have "b \<in> set rest" by simp
    with rest q obtain a where "a \<in> set rest" "path a = q" "start a \<le> start b" "end_off b \<le> end_off a"
      unfolding nestedIn_def by blast
    then show ?thesis by auto
  qed
  from a b c show ?thesis unfolding nestedIn_def by blast
qed

lemma nestedIn_nested:
  assumes seg: "CHR ''.'' \<notin> set seg" and cp: "cp = joinPath bp seg"
    and inner: "nestedIn cp p2 p3 inner"
    and w: "path w = cp" "start w = lo" "end_off w = p3"
    and le: "lo \<le> p2" "p2 \<le> p3" "p3 \<le> hi" and rest: "nestedIn bp p3 hi rest"
  shows "nestedIn bp lo hi (inner @ w # rest)"
proof -
  have inner_b: "cp \<noteq> [] \<Longrightarrow> \<forall>x\<in>set inner. isMessageAncestorPath cp (path x)"
    using inner by (simp add: nestedIn_def)
  have inner_a: "\<forall>x\<in>set inner. p2 \<le> start x \<and> end_off x \<le> p3"
    using inner by (simp add: nestedIn_def)
  have rest_a: "\<forall>x\<in>set rest. p3 \<le> start x \<and> end_off x \<le> hi"
    using rest by (simp add: nestedIn_def)
  have a: "\<forall>x\<in>set (inner @ w # rest). lo \<le> start x \<and> end_off x \<le> hi"
    using inner_a rest_a w le by auto
  have b: "bp \<noteq> [] \<longrightarrow> (\<forall>x\<in>set (inner @ w # rest). isMessageAncestorPath bp (path x))"
  proof
    assume ne: "bp \<noteq> []"
    then have cpne: "cp \<noteq> []" using cp joinPath_empty[of bp seg] by auto
    have bc: "isMessageAncestorPath bp cp" using ne cp by (simp add: joinPath_below)
    have "\<forall>x\<in>set inner. isMessageAncestorPath bp (path x)"
      using inner_b[OF cpne] bc ancestor_trans by blast
    moreover have "\<forall>x\<in>set rest. isMessageAncestorPath bp (path x)"
      using rest ne by (simp add: nestedIn_def)
    ultimately show "\<forall>x\<in>set (inner @ w # rest). isMessageAncestorPath bp (path x)"
      using w(1) bc by auto
  qed
  have c: "\<exists>a\<in>set (inner @ w # rest). path a = q \<and> start a \<le> start b \<and> end_off b \<le> end_off a"
    if b: "b \<in> set (inner @ w # rest)" and q: "isMessageAncestorPath q (path b)"
      "bp = [] \<or> isMessageAncestorPath bp q"
    for b q
  proof -
    have noc: "\<not> isMessageAncestorPath q cp"
      using joinPath_no_ancestor[OF seg, of q bp] q(2) cp by blast
    from b consider "b \<in> set inner" | "b = w" | "b \<in> set rest" by auto
    then show ?thesis
    proof cases
      case 1
      show ?thesis
      proof (cases "cp = []")
        case True
        with inner 1 q(1) obtain a where
          "a \<in> set inner" "path a = q" "start a \<le> start b" "end_off b \<le> end_off a"
          unfolding nestedIn_def by blast
        then show ?thesis by auto
      next
        case False
        with inner_b 1 have "isMessageAncestorPath cp (path b)" by blast
        from ancestors_comparable[OF q(1) this] noc
        consider "q = cp" | "isMessageAncestorPath cp q" by blast
        then show ?thesis
        proof cases
          case 1
          have "start w \<le> start b \<and> end_off b \<le> end_off w"
            using inner_a \<open>b \<in> set inner\<close> w le by auto
          with 1 w(1) show ?thesis by auto
        next
          case 2
          with inner \<open>b \<in> set inner\<close> q(1) obtain a where
            "a \<in> set inner" "path a = q" "start a \<le> start b" "end_off b \<le> end_off a"
            unfolding nestedIn_def by blast
          then show ?thesis by auto
        qed
      qed
    next
      case 2
      with q(1) w(1) noc show ?thesis by simp
    next
      case 3
      with rest q obtain a where "a \<in> set rest" "path a = q" "start a \<le> start b" "end_off b \<le> end_off a"
        unfolding nestedIn_def by blast
      then show ?thesis by auto
    qed
  qed
  from a b c show ?thesis unfolding nestedIn_def by blast
qed


lemma readMessage_nestedIn:
  assumes wf: "dotFreeNames env"
    and run: "readMessage env buf ty endPos obj bp d g pos regs = Inr res"
  shows "g = 0 \<longrightarrow> (\<exists>new. snd (snd res) = regs @ new \<and> nestedIn bp pos (fst (snd res)) new)"
  using run
proof (induction rule: readMessage_success_induct)
  case (stop ty endPos obj bp d g pos regs)
  then show ?case by (simp add: nestedIn_Nil)
next
  case (leaf ty endPos obj bp d g pos regs res tag p1 fld name p2 obj2 lbl)
  let ?r = "\<lparr>start = pos, end_off = p2,
            path = indexedPath fld name (ensureArray fld name obj) (joinPath bp name),
            rtype = lbl, wireType = unat (tag AND 7), fieldName = name, depth = d\<rparr>"
  show ?case
  proof
    assume g: "g = 0"
    with leaf.IH obtain new where new: "snd (snd res) = (regs @ [?r]) @ new"
      "nestedIn bp p2 (fst (snd res)) new" by blast
    have nm: "CHR ''.'' \<notin> set name"
      using fieldName_ok[OF wf, of ty "unat (drop_bit 3 tag)"] leaf.hyps(3,4) by simp
    then obtain seg where seg: "path ?r = joinPath bp seg" "CHR ''.'' \<notin> set seg"
      using indexedPath_segment[of name fld "ensureArray fld name obj" bp] by auto
    have le: "pos \<le> p2" using uint32_progress[OF leaf.hyps(2)] leaf.hyps(5) by simp
    have le2: "p2 \<le> fst (snd res)"
      using readMessage_mono[of env buf ty endPos obj2 bp d g p2 _ "fst res" "fst (snd res)" "snd (snd res)"]
        leaf.hyps(6) by simp
    have "nestedIn bp pos (fst (snd res)) (?r # new)"
      by (rule nestedIn_leaf[OF seg(2) seg(1) _ _ le le2 new(2)]) simp_all
    with new(1) show "\<exists>new. snd (snd res) = regs @ new \<and> nestedIn bp pos (fst (snd res)) new"
      by (intro exI[of _ "?r # new"]) simp
  qed
next
  case (packed ty endPos obj bp d g pos regs res tag p1 f name p3 obj2)
  let ?r = "\<lparr>start = pos + g, end_off = p3 + g, path = joinPath bp name,
            rtype = ''packed '' @ ftype f, wireType = 2, fieldName = name, depth = d\<rparr>"
  show ?case
  proof
    assume g: "g = 0"
    with packed.IH obtain new where new: "snd (snd res) = (regs @ [?r]) @ new"
      "nestedIn bp p3 (fst (snd res)) new" by blast
    have "name = fieldNameOf (findField (env ty) (unat (drop_bit 3 tag))) (unat (drop_bit 3 tag))"
      using packed.hyps(3,4) by (simp add: fieldNameOf_def)
    then have nm: "CHR ''.'' \<notin> set name"
      using fieldName_ok[OF wf, of ty "unat (drop_bit 3 tag)"] by simp
    have le: "pos \<le> p3" using uint32_progress[OF packed.hyps(2)] packed.hyps(5) by simp
    have le2: "p3 \<le> fst (snd res)"
      using readMessage_mono[of env buf ty endPos obj2 bp d g p3 _ "fst res" "fst (snd res)" "snd (snd res)"]
        packed.hyps(6) by simp
    have "nestedIn bp pos (fst (snd res)) (?r # new)"
      by (rule nestedIn_leaf[OF nm _ _ _ le le2 new(2)]) (simp_all add: g)
    with new(1) show "\<exists>new. snd (snd res) = regs @ new \<and> nestedIn bp pos (fst (snd res)) new"
      by (intro exI[of _ "?r # new"]) simp
  qed
next
  case (nested ty endPos obj bp d g pos regs res tag p1 f name n p2 nobj p3 regs3 obj2 cp)
  let ?w = "\<lparr>start = pos, end_off = p3, path = cp, rtype = ftype f, wireType = 2,
            fieldName = name, depth = d\<rparr>"
  show ?case
  proof
    assume g: "g = 0"
    from nested.IH(1) obtain inner where inner: "regs3 = regs @ inner" "nestedIn cp p2 p3 inner"
      by auto
    from nested.IH(2) g obtain new where new: "snd (snd res) = (regs3 @ [?w]) @ new"
      "nestedIn bp p3 (fst (snd res)) new" by blast
    have "name = fieldNameOf (findField (env ty) (unat (drop_bit 3 tag))) (unat (drop_bit 3 tag))"
      using nested.hyps(3,4) by (simp add: fieldNameOf_def)
    then have nm: "CHR ''.'' \<notin> set name"
      using fieldName_ok[OF wf, of ty "unat (drop_bit 3 tag)"] by simp
    then obtain seg where seg: "cp = joinPath bp seg" "CHR ''.'' \<notin> set seg"
      using indexedPath_segment[of name "Some f" "ensureArray (Some f) name obj" bp] nested.hyps(6)
      by auto
    have le: "pos \<le> p2" using uint32_progress[OF nested.hyps(2)] uint32_progress[OF nested.hyps(5)] by simp
    have le1: "p2 \<le> p3" using readMessage_mono[OF nested.hyps(7)] .
    have le2: "p3 \<le> fst (snd res)"
      using readMessage_mono[of env buf ty endPos obj2 bp d g p3 _ "fst res" "fst (snd res)" "snd (snd res)"]
        nested.hyps(8) by simp
    have "nestedIn bp pos (fst (snd res)) (inner @ ?w # new)"
      by (rule nestedIn_nested[OF seg(2) seg(1) inner(2) _ _ _ le le1 le2 new(2)]) simp_all
    with new(1) inner(1)
    show "\<exists>new. snd (snd res) = regs @ new \<and> nestedIn bp pos (fst (snd res)) new"
      by (intro exI[of _ "inner @ ?w # new"]) simp
  qed
qed

lemma nestedSchema_dotFree: "dotFreeNames nestedSchema"
  by (simp add: dotFreeNames_def nestedSchema_def messageField_def scalarField_def)

lemma message_step:
  assumes "isAncestorPath a b" and "b ! length a = CHR ''.''"
  shows "isMessageAncestorPath a b"
proof -
  from assms(1) have "length a < length b" "take (length a) b = a"
    by (simp_all add: isAncestorPath_def)
  then have "take (Suc (length a)) b = a @ [b ! length a]"
    by (simp add: take_Suc_conv_app_nth)
  with assms(2) show ?thesis by (simp add: isMessageAncestorPath_def)
qed


text \<open>
  C4, as amended. Let no field name of the schema hold a \<^verbatim>\<open>.\<close> and let decoding
  succeed. For all returned regions A and B where the path of A is a strict structural
  ancestor of the path of B and the step behind the path of A is \<^verbatim>\<open>.\<close> (the path of A
  is that of a message B lies in), some returned region with the path of A contains B (its
  start is at most the start of B, and the end of B is at most its end); when A is the only
  returned region with its path, A itself contains B.
\<close>

theorem C4_ancestor_contains:
  assumes "dotFreeNames env" and "decodeWithRegions env type buf = Inr (result, regions)"
  shows "\<forall>a\<in>set regions. \<forall>b\<in>set regions.
           isAncestorPath (path a) (path b) \<and> path b ! length (path a) = CHR ''.'' \<longrightarrow>
           (\<exists>c\<in>set regions. path c = path a \<and> start c \<le> start b \<and> end_off b \<le> end_off c)
           \<and> ((\<forall>c\<in>set regions. path c = path a \<longrightarrow> c = a) \<longrightarrow>
                start a \<le> start b \<and> end_off b \<le> end_off a)"
proof -
  from assms(2) obtain pos where
    run: "readMessage env buf type (length buf) [] [] 0 0 0 [] = Inr (result, pos, regions)"
    by (auto simp: decodeWithRegions_def split: sum.splits)
  from readMessage_nestedIn[OF assms(1) run] have n: "nestedIn [] 0 pos regions" by simp
  show ?thesis
  proof (intro ballI impI)
    fix a b assume ab: "a \<in> set regions" "b \<in> set regions"
      "isAncestorPath (path a) (path b) \<and> path b ! length (path a) = CHR ''.''"
    then have "isMessageAncestorPath (path a) (path b)" by (simp add: message_step)
    with n ab(1,2) obtain c where
      c: "c \<in> set regions" "path c = path a" "start c \<le> start b" "end_off b \<le> end_off c"
      unfolding nestedIn_def by blast
    then have "(\<forall>c\<in>set regions. path c = path a \<longrightarrow> c = a) \<longrightarrow>
                start a \<le> start b \<and> end_off b \<le> end_off a" by auto
    with c show "(\<exists>c\<in>set regions. path c = path a \<and> start c \<le> start b \<and> end_off b \<le> end_off c)
           \<and> ((\<forall>c\<in>set regions. path c = path a \<longrightarrow> c = a) \<longrightarrow>
                start a \<le> start b \<and> end_off b \<le> end_off a)" by blast
  qed
qed


theorem C4_ancestor_contains_witness:
  "dotFreeNames nestedSchema
   \<and> decodeWithRegions nestedSchema ''Outer'' [0x0A, 0x02, 0x08, 0x07] =
       Inr ([(''inner'', Obj [(''x'', Num 7)])],
          [\<lparr>start = 2, end_off = 4, path = ''inner.x'', rtype = ''int32'', wireType = 0,
              fieldName = ''x'', depth = 1\<rparr>,
           \<lparr>start = 0, end_off = 4, path = ''inner'', rtype = ''Inner'', wireType = 2,
              fieldName = ''inner'', depth = 0\<rparr>])
   \<and> isAncestorPath ''inner'' ''inner.x'' \<and> ''inner.x'' ! length ''inner'' = CHR ''.''
   \<and> start \<lparr>start = 0, end_off = 4, path = ''inner'', rtype = ''Inner'', wireType = 2,
              fieldName = ''inner'', depth = 0\<rparr>
        \<le> start \<lparr>start = 2, end_off = 4, path = ''inner.x'', rtype = ''int32'', wireType = 0,
              fieldName = ''x'', depth = 1\<rparr>
   \<and> end_off \<lparr>start = 2, end_off = 4, path = ''inner.x'', rtype = ''int32'', wireType = 0,
              fieldName = ''x'', depth = 1\<rparr>
        \<le> end_off \<lparr>start = 0, end_off = 4, path = ''inner'', rtype = ''Inner'', wireType = 2,
              fieldName = ''inner'', depth = 0\<rparr>"
proof -
  have run: "decodeWithRegions nestedSchema ''Outer'' [0x0A, 0x02, 0x08, 0x07] =
       Inr ([(''inner'', Obj [(''x'', Num 7)])],
          [\<lparr>start = 2, end_off = 4, path = ''inner.x'', rtype = ''int32'', wireType = 0,
              fieldName = ''x'', depth = 1\<rparr>,
           \<lparr>start = 0, end_off = 4, path = ''inner'', rtype = ''Inner'', wireType = 2,
              fieldName = ''inner'', depth = 0\<rparr>])"
    by code_simp
  have anc: "isAncestorPath ''inner'' ''inner.x'' \<and> ''inner.x'' ! length ''inner'' = CHR ''.''"
    by (simp add: isAncestorPath_def)
  from C4_ancestor_contains[OF nestedSchema_dotFree run] nestedSchema_dotFree run anc
  show ?thesis by simp
qed


text \<open>
  C4 as stated fails in three ways. A path may occur more than once: in the bytes
  0A 02 08 07 0A 02 08 09 the field \<^verbatim>\<open>inner\<close> occurs twice; the region of its first
  occurrence (bytes 0 to 4) has the path \<^verbatim>\<open>inner\<close>, a strict ancestor of the path
  \<^verbatim>\<open>inner.x\<close> of the region of bytes 6 to 8, which lies inside the second occurrence.
  The step from the name of a repeated field to one of its elements is no containment: in
  the bytes 08 01 0A 01 02 the field \<^verbatim>\<open>nums\<close> occurs once as a single element (region
  \<^verbatim>\<open>nums[0]\<close>, bytes 0 to 2) and once as a packed block (region \<^verbatim>\<open>nums\<close>, bytes
  2 to 5), and the region \<^verbatim>\<open>nums\<close> is the only one with its path. And a field name
  may hold a \<^verbatim>\<open>.\<close>: the fields \<^verbatim>\<open>a\<close> and \<^verbatim>\<open>a.b\<close> of one message give the
  regions \<^verbatim>\<open>a\<close> (bytes 0 to 2) and \<^verbatim>\<open>a.b\<close> (bytes 2 to 4).
\<close>

theorem C4_ancestor_counterexample:
  "decodeWithRegions nestedSchema ''Outer'' [0x0A, 0x02, 0x08, 0x07, 0x0A, 0x02, 0x08, 0x09] =
     Inr ([(''inner'', Obj [(''x'', Num 9)])],
          [\<lparr>start = 2, end_off = 4, path = ''inner.x'', rtype = ''int32'', wireType = 0,
              fieldName = ''x'', depth = 1\<rparr>,
           \<lparr>start = 0, end_off = 4, path = ''inner'', rtype = ''Inner'', wireType = 2,
              fieldName = ''inner'', depth = 0\<rparr>,
           \<lparr>start = 6, end_off = 8, path = ''inner.x'', rtype = ''int32'', wireType = 0,
              fieldName = ''x'', depth = 1\<rparr>,
           \<lparr>start = 4, end_off = 8, path = ''inner'', rtype = ''Inner'', wireType = 2,
              fieldName = ''inner'', depth = 0\<rparr>])
   \<and> isAncestorPath ''inner'' ''inner.x''
   \<and> \<not> (end_off \<lparr>start = 6, end_off = 8, path = ''inner.x'', rtype = ''int32'', wireType = 0,
              fieldName = ''x'', depth = 1\<rparr>
          \<le> end_off \<lparr>start = 0, end_off = 4, path = ''inner'', rtype = ''Inner'', wireType = 2,
              fieldName = ''inner'', depth = 0\<rparr>)
   \<and> decodeWithRegions packedSchema ''Nums'' [0x08, 0x01, 0x0A, 0x01, 0x02] =
     Inr ([(''nums'', Arr [Num 1, Num 2])],
          [\<lparr>start = 0, end_off = 2, path = ''nums[0]'', rtype = ''int32'', wireType = 0,
              fieldName = ''nums'', depth = 0\<rparr>,
           \<lparr>start = 2, end_off = 5, path = ''nums'', rtype = ''packed int32'', wireType = 2,
              fieldName = ''nums'', depth = 0\<rparr>])
   \<and> isAncestorPath ''nums'' ''nums[0]''
   \<and> \<not> (start \<lparr>start = 2, end_off = 5, path = ''nums'', rtype = ''packed int32'', wireType = 2,
              fieldName = ''nums'', depth = 0\<rparr>
          \<le> start \<lparr>start = 0, end_off = 2, path = ''nums[0]'', rtype = ''int32'', wireType = 0,
              fieldName = ''nums'', depth = 0\<rparr>)
   \<and> decodeWithRegions dottedSchema ''T'' [0x08, 0x01, 0x10, 0x02] =
     Inr ([(''a'', Num 1), (''a.b'', Num 2)],
          [\<lparr>start = 0, end_off = 2, path = ''a'', rtype = ''int32'', wireType = 0,
              fieldName = ''a'', depth = 0\<rparr>,
           \<lparr>start = 2, end_off = 4, path = ''a.b'', rtype = ''int32'', wireType = 0,
              fieldName = ''a.b'', depth = 0\<rparr>])
   \<and> isAncestorPath ''a'' ''a.b'' \<and> ''a.b'' ! length ''a'' = CHR ''.''
   \<and> \<not> (end_off \<lparr>start = 2, end_off = 4, path = ''a.b'', rtype = ''int32'', wireType = 0,
              fieldName = ''a.b'', depth = 0\<rparr>
          \<le> end_off \<lparr>start = 0, end_off = 2, path = ''a'', rtype = ''int32'', wireType = 0,
              fieldName = ''a'', depth = 0\<rparr>)"
proof -
  have "decodeWithRegions nestedSchema ''Outer'' [0x0A, 0x02, 0x08, 0x07, 0x0A, 0x02, 0x08, 0x09] =
     Inr ([(''inner'', Obj [(''x'', Num 9)])],
          [\<lparr>start = 2, end_off = 4, path = ''inner.x'', rtype = ''int32'', wireType = 0,
              fieldName = ''x'', depth = 1\<rparr>,
           \<lparr>start = 0, end_off = 4, path = ''inner'', rtype = ''Inner'', wireType = 2,
              fieldName = ''inner'', depth = 0\<rparr>,
           \<lparr>start = 6, end_off = 8, path = ''inner.x'', rtype = ''int32'', wireType = 0,
              fieldName = ''x'', depth = 1\<rparr>,
           \<lparr>start = 4, end_off = 8, path = ''inner'', rtype = ''Inner'', wireType = 2,
              fieldName = ''inner'', depth = 0\<rparr>])"
    by code_simp
  moreover have "decodeWithRegions packedSchema ''Nums'' [0x08, 0x01, 0x0A, 0x01, 0x02] =
     Inr ([(''nums'', Arr [Num 1, Num 2])],
          [\<lparr>start = 0, end_off = 2, path = ''nums[0]'', rtype = ''int32'', wireType = 0,
              fieldName = ''nums'', depth = 0\<rparr>,
           \<lparr>start = 2, end_off = 5, path = ''nums'', rtype = ''packed int32'', wireType = 2,
              fieldName = ''nums'', depth = 0\<rparr>])"
    by code_simp
  moreover have "decodeWithRegions dottedSchema ''T'' [0x08, 0x01, 0x10, 0x02] =
     Inr ([(''a'', Num 1), (''a.b'', Num 2)],
          [\<lparr>start = 0, end_off = 2, path = ''a'', rtype = ''int32'', wireType = 0,
              fieldName = ''a'', depth = 0\<rparr>,
           \<lparr>start = 2, end_off = 4, path = ''a.b'', rtype = ''int32'', wireType = 0,
              fieldName = ''a.b'', depth = 0\<rparr>])"
    by code_simp
  moreover have "isAncestorPath ''inner'' ''inner.x''" "isAncestorPath ''nums'' ''nums[0]''"
    "isAncestorPath ''a'' ''a.b''"
    by (simp_all add: isAncestorPath_def)
  ultimately show ?thesis by simp
qed


end
